theory Spec2Isabelle
  imports Complex_Main
begin

section \<open>Environment (environment.py)\<close>

text \<open>
  Python ints are modelled by \<open>int\<close>. A finite Python float is modelled by the real
  number it denotes; infinities and NaN have no counterpart. In \<open>move\<close> the rounding of
  every float operation is written out. Elsewhere the operations are written as the exact
  ones, and the theorems about them rest only on what the rounded operations share with the
  exact ones: they are monotone, and their results have the same signs. The exceptions
  that \<open>move\<close>, \<open>predict\<close>, \<open>update\<close> and \<open>resample\<close> raise are branches of
  the model. A two-dimensional numpy array of shape \<open>(height, width)\<close> is a function
  from row and column to the entry; the shape is kept beside it, as the classes do.
\<close>

datatype CellType = FREE | OBSTACLE | CLIFF | DOCK | DIRTY

datatype py_error = ValueError | IndexError | ZeroDivisionError | OverflowError

fun CellType_of :: "int \<Rightarrow> py_error + CellType" where
  "CellType_of v =
     (if v = 0 then Inr FREE
      else if v = 1 then Inr OBSTACLE
      else if v = 2 then Inr CLIFF
      else if v = 3 then Inr DOCK
      else if v = 4 then Inr DIRTY
      else Inl ValueError)"

declare CellType_of.simps [simp del]

record Environment =
  env :: "int \<Rightarrow> int \<Rightarrow> int"
  original_env :: "int \<Rightarrow> int \<Rightarrow> int"
  height :: int
  width :: int
  tick_rate :: real
  dock_position :: "(int \<times> int) option"
  dirt_map :: "int \<Rightarrow> int \<Rightarrow> bool"
  sim_time :: real

definition clean_cell :: "Environment \<Rightarrow> int \<Rightarrow> int \<Rightarrow> Environment" where
  "clean_cell e x y =
     (if 0 \<le> x \<and> x < width e \<and> 0 \<le> y \<and> y < height e
      then e\<lparr>dirt_map := (dirt_map e)(y := (dirt_map e y)(x := False))\<rparr>
      else e)"

definition is_dirty :: "Environment \<Rightarrow> int \<Rightarrow> int \<Rightarrow> bool" where
  "is_dirty e x y =
     (if 0 \<le> x \<and> x < width e \<and> 0 \<le> y \<and> y < height e then dirt_map e y x else False)"

definition get_cell_type :: "Environment \<Rightarrow> int \<Rightarrow> int \<Rightarrow> py_error + CellType" where
  "get_cell_type e x y =
     (if 0 \<le> x \<and> x < width e \<and> 0 \<le> y \<and> y < height e
      then CellType_of (env e y x)
      else Inr OBSTACLE)"

text \<open>A small room used for concrete evaluation: 3 columns, 2 rows, all free.\<close>

definition room32 :: Environment where
  "room32 = \<lparr>env = (\<lambda>y x. 0), original_env = (\<lambda>y x. 0), height = 2, width = 3,
     tick_rate = 1 / 10, dock_position = None, dirt_map = (\<lambda>y x. True), sim_time = 0\<rparr>"

section \<open>Robot (robot.py)\<close>

datatype RobotState = IDLE | CLEANING | RETURNING_TO_DOCK | CHARGING | ERROR | STUCK

datatype CleaningMode = AUTO | SPOT | EDGE | SPIRAL | ZIGZAG | WALL_FOLLOW | RANDOM

datatype Position = Position (pos_x: real) (pos_y: real)

text \<open>Python's \<open>int()\<close> on a float discards the fractional part: it rounds towards zero.\<close>

definition py_int :: "real \<Rightarrow> int" where
  "py_int v = (if 0 \<le> v then \<lfloor>v\<rfloor> else \<lceil>v\<rceil>)"

definition distance_to :: "Position \<Rightarrow> Position \<Rightarrow> real" where
  "distance_to a b = sqrt ((pos_x a - pos_x b)\<^sup>2 + (pos_y a - pos_y b)\<^sup>2)"

definition to_grid :: "Position \<Rightarrow> int \<times> int" where
  "to_grid p = (py_int (pos_x p), py_int (pos_y p))"

record RobotStats =
  total_distance :: real
  area_cleaned :: nat
  cleaning_time :: real
  battery_cycles :: int
  errors_encountered :: int
  stuck_count :: int

definition RobotStats_init :: RobotStats where
  "RobotStats_init = \<lparr>total_distance = 0, area_cleaned = 0, cleaning_time = 0,
     battery_cycles = 0, errors_encountered = 0, stuck_count = 0\<rparr>"

text \<open>
  The robot object. The sensor snapshot and the two map attributes that no modelled
  method reads or writes (\<open>sensor_data\<close>, \<open>environment_map\<close>, \<open>obstacle_map\<close>) are left out.
\<close>

record RobotVacuum =
  position :: Position
  battery_capacity :: real
  battery_level :: real
  cleaning_width :: real
  speed :: real
  sensor_range :: real
  state :: RobotState
  mode :: CleaningMode
  heading :: real
  robot_dock :: "Position option"
  stats :: RobotStats
  cleaned_cells :: "(int \<times> int) set"
  visited_cells :: "(int \<times> int) set"
  path_history :: "Position list"

definition RobotVacuum_init :: "Position \<Rightarrow> real \<Rightarrow> real \<Rightarrow> real \<Rightarrow> real \<Rightarrow> RobotVacuum" where
  "RobotVacuum_init p capacity cw sp sr =
     \<lparr>position = p, battery_capacity = capacity, battery_level = capacity,
      cleaning_width = cw, speed = sp, sensor_range = sr,
      state = IDLE, mode = AUTO, heading = 0, robot_dock = None,
      stats = RobotStats_init, cleaned_cells = {}, visited_cells = {},
      path_history = [p]\<rparr>"

text \<open>
  The arithmetic of \<open>move\<close>. Every operation on doubles returns the exact result rounded
  to a double; \<open>fl\<close> is that rounding, an argument of the model. A result overflows when
  its magnitude rounds beyond the largest double, \<open>2 ^ 1024 - 2 ^ 971\<close>, that is from
  \<open>2 ^ 1024 - 2 ^ 970\<close> on. Python's \<open>**\<close> on floats raises \<open>OverflowError\<close> for a result
  that overflows.
\<close>

definition overflows :: "real \<Rightarrow> bool" where
  "overflows v \<longleftrightarrow> 2 ^ 1024 - 2 ^ 970 \<le> \<bar>v\<bar>"

definition py_square :: "(real \<Rightarrow> real) \<Rightarrow> real \<Rightarrow> py_error + real" where
  "py_square fl v = (if overflows (v\<^sup>2) then Inl OverflowError else Inr (fl (v\<^sup>2)))"

text \<open>
  \<open>move\<close> returns what the call does, the flag it returns or the exception it raises,
  together with the robot after the call. The position and the path history are written
  before the distance is computed, so they are written also when a square raises. When
  the squares do not overflow but their sum does, the code goes on with an infinite
  distance, which has no counterpart here: the contract of a call that returns True is
  stated for sums that do not overflow.
\<close>

definition move :: "(real \<Rightarrow> real) \<Rightarrow> RobotVacuum \<Rightarrow> real \<Rightarrow> real \<Rightarrow> (py_error + bool) \<times> RobotVacuum" where
  "move fl r dx dy =
     (if battery_level r \<le> 0 then (Inr False, r\<lparr>state := ERROR\<rparr>)
      else
        let new_position = Position (fl (pos_x (position r) + dx)) (fl (pos_y (position r) + dy));
            r1 = r\<lparr>position := new_position, path_history := path_history r @ [new_position]\<rparr>
        in case py_square fl dx of
             Inl e \<Rightarrow> (Inl e, r1)
           | Inr dx2 \<Rightarrow>
              (case py_square fl dy of
                 Inl e \<Rightarrow> (Inl e, r1)
               | Inr dy2 \<Rightarrow>
                  let distance = fl (sqrt (fl (dx2 + dy2)));
                      r2 = r1\<lparr>stats := (stats r1)\<lparr>total_distance := fl (total_distance (stats r1) + distance)\<rparr>\<rparr>;
                      battery_consumption = fl (distance * fl (1 / 10));
                      r3 = r2\<lparr>battery_level := max 0 (fl (battery_level r2 - battery_consumption))\<rparr>;
                      grid_pos = to_grid (position r3);
                      r4 = r3\<lparr>visited_cells := insert grid_pos (visited_cells r3),
                              cleaned_cells := insert grid_pos (cleaned_cells r3)\<rparr>
                  in (Inr True, r4\<lparr>stats := (stats r4)\<lparr>area_cleaned := card (cleaned_cells r4)\<rparr>\<rparr>)))"

definition should_return_to_dock :: "RobotVacuum \<Rightarrow> bool" where
  "should_return_to_dock r =
     (if battery_level r < 20 then True
      else case robot_dock r of
             Some d \<Rightarrow>
               (let distance_to_dock = distance_to (position r) d;
                    estimated_battery_needed = distance_to_dock * (1 / 10) * (3 / 2)
                in if battery_level r < estimated_battery_needed + 10 then True else False)
           | None \<Rightarrow> False)"

definition charge :: "RobotVacuum \<Rightarrow> real \<Rightarrow> bool \<times> RobotVacuum" where
  "charge r charge_rate =
     (let r1 = (if state r \<noteq> CHARGING then r\<lparr>state := CHARGING\<rparr> else r);
          r2 = r1\<lparr>battery_level := min (battery_capacity r1) (battery_level r1 + charge_rate)\<rparr>
      in if battery_level r2 \<ge> battery_capacity r2
         then (True, r2\<lparr>stats := (stats r2)\<lparr>battery_cycles := battery_cycles (stats r2) + 1\<rparr>\<rparr>)
         else (False, r2))"

definition set_dock_position :: "RobotVacuum \<Rightarrow> Position \<Rightarrow> RobotVacuum" where
  "set_dock_position r p = r\<lparr>robot_dock := Some p\<rparr>"

text \<open>
  A run of the robot: the constructor followed by calls of the two methods that write the
  battery. Every state of such a run is a reachable state; after a call that raises, the
  run goes on from the state the call has left.
\<close>

datatype robot_call = Move real real | Charge real

fun call :: "(real \<Rightarrow> real) \<Rightarrow> RobotVacuum \<Rightarrow> robot_call \<Rightarrow> RobotVacuum" where
  "call fl r (Move dx dy) = snd (move fl r dx dy)"
| "call fl r (Charge rate) = snd (charge r rate)"

fun calls :: "(real \<Rightarrow> real) \<Rightarrow> RobotVacuum \<Rightarrow> robot_call list \<Rightarrow> RobotVacuum" where
  "calls fl r [] = r"
| "calls fl r (c # cs) = calls fl (call fl r c) cs"

fun charge_rate_ok :: "robot_call \<Rightarrow> bool" where
  "charge_rate_ok (Move dx dy) = True"
| "charge_rate_ok (Charge rate) = (0 \<le> rate)"

text \<open>
  What the proofs about the battery use of the rounding: rounding to the nearest double is
  monotone, and 0 is a double. A number \<open>v\<close> is a double when \<open>fl v = v\<close>.
\<close>

definition rounding :: "(real \<Rightarrow> real) \<Rightarrow> bool" where
  "rounding fl \<longleftrightarrow> mono fl \<and> fl 0 = 0"

text \<open>The battery invariant of a robot state.\<close>

definition battery_ok :: "RobotVacuum \<Rightarrow> bool" where
  "battery_ok r \<longleftrightarrow> 0 \<le> battery_level r \<and> battery_level r \<le> battery_capacity r"

text \<open>
  The robot of the unit tests, at (10, 10) with the default parameters, and the rounding
  that leaves every number as it is, for concrete evaluation on inputs at which the
  rounded results stated are the exact ones.
\<close>

definition robot0 :: RobotVacuum where
  "robot0 = RobotVacuum_init (Position 10 10) 100 (3 / 10) (2 / 10) 2"

definition unrounded :: "real \<Rightarrow> real" where
  "unrounded v = v"

text \<open>A displacement whose square overflows; it is a double.\<close>

definition huge :: real where
  "huge = 2 ^ 700"

section \<open>Path planners (pathplanning.py)\<close>

text \<open>
  A planner keeps the environment array and its shape. The array is indexed row first,
  \<open>environment[y, x]\<close>. Grid cells are pairs \<open>(x, y)\<close> of Python ints.
\<close>

record PathPlanner =
  environment :: "int \<Rightarrow> int \<Rightarrow> int"
  planner_height :: int
  planner_width :: int

definition is_valid_position :: "PathPlanner \<Rightarrow> int \<Rightarrow> int \<Rightarrow> bool" where
  "is_valid_position P x y =
     (if \<not> (0 \<le> x \<and> x < planner_width P \<and> 0 \<le> y \<and> y < planner_height P) then False
      else environment P y x \<in> set [0, 3])"

definition get_neighbors :: "PathPlanner \<Rightarrow> int \<Rightarrow> int \<Rightarrow> bool \<Rightarrow> (int \<times> int) list" where
  "get_neighbors P x y diagonal =
     [(x + dx, y + dy). (dx, dy) \<leftarrow> [(0, 1), (1, 0), (0, - 1), (- 1, 0)],
        is_valid_position P (x + dx) (y + dy)] @
     (if diagonal
      then [(x + dx, y + dy). (dx, dy) \<leftarrow> [(1, 1), (1, - 1), (- 1, 1), (- 1, - 1)],
              is_valid_position P (x + dx) (y + dy),
              is_valid_position P (x + dx) y \<and> is_valid_position P x (y + dy)]
      else [])"

subsection \<open>Zigzag coverage\<close>

text \<open>\<open>range(n)\<close> is the list \<open>[0..n - 1]\<close>, and \<open>range(n - 1, -1, -1)\<close> is its reverse.\<close>

definition generate_zigzag_path :: "PathPlanner \<Rightarrow> int \<times> int \<Rightarrow> bool \<Rightarrow> (int \<times> int) list" where
  "generate_zigzag_path P start horizontal =
     (if horizontal
      then concat (map (\<lambda>y.
             if y mod 2 = 0
             then [(x, y). x \<leftarrow> [0..planner_width P - 1], is_valid_position P x y]
             else [(x, y). x \<leftarrow> rev [0..planner_width P - 1], is_valid_position P x y])
           [0..planner_height P - 1])
      else concat (map (\<lambda>x.
             if x mod 2 = 0
             then [(x, y). y \<leftarrow> [0..planner_height P - 1], is_valid_position P x y]
             else [(x, y). y \<leftarrow> rev [0..planner_height P - 1], is_valid_position P x y])
           [0..planner_width P - 1]))"

text \<open>
  The order the specification gives to a zigzag sweep: rows from the top, an even row from
  the left and an odd row from the right; in vertical mode the same with the roles of
  \<open>x\<close> and \<open>y\<close> exchanged.
\<close>

definition zigzag_before :: "bool \<Rightarrow> int \<times> int \<Rightarrow> int \<times> int \<Rightarrow> bool" where
  "zigzag_before horizontal a b =
     (if horizontal
      then snd a < snd b \<or> (snd a = snd b \<and> (if even (snd a) then fst a < fst b else fst b < fst a))
      else fst a < fst b \<or> (fst a = fst b \<and> (if even (fst a) then snd a < snd b else snd b < snd a)))"

text \<open>
  \<open>EnvironmentGenerator.create_empty_room\<close> (environment.py): zeros with the four border
  lines set to obstacle. The planner built on that array.
\<close>

definition create_empty_room :: "int \<Rightarrow> int \<Rightarrow> PathPlanner" where
  "create_empty_room w h =
     \<lparr>environment = (\<lambda>y x. if y = 0 \<or> y = h - 1 \<or> x = 0 \<or> x = w - 1 then 1 else 0),
      planner_height = h, planner_width = w\<rparr>"

subsection \<open>Spiral coverage\<close>

text \<open>The local variables of \<open>generate_spiral_path\<close>.\<close>

record spiral_vars =
  cur_x :: int
  cur_y :: int
  dir_x :: int
  dir_y :: int
  steps_in_direction :: int
  steps_taken :: int
  direction_changes :: int
  spiral_path :: "(int \<times> int) list"

text \<open>One pass through the body of the \<open>for\<close> loop, up to the test that guards \<open>break\<close>.\<close>

definition spiral_body :: "PathPlanner \<Rightarrow> spiral_vars \<Rightarrow> spiral_vars" where
  "spiral_body P s =
     (let x = cur_x s + dir_x s;
          y = cur_y s + dir_y s;
          s1 = s\<lparr>cur_x := x, cur_y := y,
                 spiral_path := (if is_valid_position P x y then spiral_path s @ [(x, y)]
                                 else spiral_path s),
                 steps_taken := steps_taken s + 1\<rparr>
      in if steps_taken s1 = steps_in_direction s1
         then s1\<lparr>steps_taken := 0,
                 direction_changes := direction_changes s1 + 1,
                 dir_x := - dir_y s1, dir_y := dir_x s1,
                 steps_in_direction :=
                   (if (direction_changes s1 + 1) mod 2 = 0 then steps_in_direction s1 + 1
                    else steps_in_direction s1)\<rparr>
         else s1)"

definition spiral_break :: "int \<times> int \<Rightarrow> int \<Rightarrow> spiral_vars \<Rightarrow> bool" where
  "spiral_break start max_radius s \<longleftrightarrow>
     \<bar>cur_x s - fst start\<bar> > max_radius \<and> \<bar>cur_y s - snd start\<bar> > max_radius"

text \<open>The \<open>for\<close> loop over \<open>range(max_radius * max_radius)\<close>; the counter is what is left of the range.\<close>

fun spiral_loop :: "PathPlanner \<Rightarrow> int \<times> int \<Rightarrow> int \<Rightarrow> nat \<Rightarrow> spiral_vars \<Rightarrow> spiral_vars" where
  "spiral_loop P start max_radius 0 s = s"
| "spiral_loop P start max_radius (Suc n) s =
     (let s' = spiral_body P s
      in if spiral_break start max_radius s' then s'
         else spiral_loop P start max_radius n s')"

definition spiral_init :: "int \<times> int \<Rightarrow> spiral_vars" where
  "spiral_init start =
     \<lparr>cur_x = fst start, cur_y = snd start, dir_x = 1, dir_y = 0,
      steps_in_direction = 1, steps_taken = 0, direction_changes = 0,
      spiral_path = [start]\<rparr>"

definition generate_spiral_path :: "PathPlanner \<Rightarrow> int \<times> int \<Rightarrow> int option \<Rightarrow> (int \<times> int) list" where
  "generate_spiral_path P start max_radius =
     (let R = (case max_radius of None \<Rightarrow> max (planner_width P) (planner_height P) | Some r \<Rightarrow> r)
      in spiral_path (spiral_loop P start R (nat (R * R)) (spiral_init start)))"

text \<open>
  The abstract spiral as the specification words it: legs in the directions right, down,
  left, up (\<open>y\<close> grows downwards), of lengths 1, 1, 2, 2, 3, 3, ...; leg \<open>k\<close> (counted
  from 0) has length \<open>k div 2 + 1\<close>. \<open>spiral_cells start n\<close> are the first \<open>n\<close> cells
  after the start cell.
\<close>

definition spiral_direction :: "nat \<Rightarrow> int \<times> int" where
  "spiral_direction k =
     (if k mod 4 = 0 then (1, 0) else if k mod 4 = 1 then (0, 1)
      else if k mod 4 = 2 then (- 1, 0) else (0, - 1))"

definition spiral_legs :: "nat \<Rightarrow> nat \<Rightarrow> (int \<times> int) list" where
  "spiral_legs a c = concat (map (\<lambda>k. replicate (k div 2 + 1) (spiral_direction k)) [a..<a + c])"

fun walk :: "int \<times> int \<Rightarrow> (int \<times> int) list \<Rightarrow> (int \<times> int) list" where
  "walk p [] = []"
| "walk p (d # ds) = (fst p + fst d, snd p + snd d) # walk (fst p + fst d, snd p + snd d) ds"

definition spiral_cells :: "int \<times> int \<Rightarrow> nat \<Rightarrow> (int \<times> int) list" where
  "spiral_cells start n = take n (walk start (spiral_legs 0 n))"

text \<open>A 5 by 5 and a 7 by 7 room with walls on the border, for concrete evaluation.\<close>

definition room55 :: PathPlanner where
  "room55 = create_empty_room 5 5"

definition room77 :: PathPlanner where
  "room77 = create_empty_room 7 7"

text \<open>
  Auxiliary notions for the proofs: the loop without its \<open>break\<close>, the cells it passes,
  the position of the variables within leg \<open>k\<close>, and the closed form of the variables after
  \<open>n\<close> steps (in round \<open>m\<close> of the spiral, on its right, down, left or up leg).
\<close>

fun spiral_run :: "PathPlanner \<Rightarrow> nat \<Rightarrow> spiral_vars \<Rightarrow> spiral_vars" where
  "spiral_run P 0 s = s"
| "spiral_run P (Suc n) s = spiral_run P n (spiral_body P s)"

fun spiral_trace :: "PathPlanner \<Rightarrow> nat \<Rightarrow> spiral_vars \<Rightarrow> (int \<times> int) list" where
  "spiral_trace P 0 s = []"
| "spiral_trace P (Suc n) s =
     (cur_x (spiral_body P s), cur_y (spiral_body P s)) # spiral_trace P n (spiral_body P s)"

definition in_leg :: "nat \<Rightarrow> nat \<Rightarrow> int \<times> int \<Rightarrow> spiral_vars \<Rightarrow> bool" where
  "in_leg k t p s \<longleftrightarrow>
     cur_x s = fst p \<and> cur_y s = snd p \<and> (dir_x s, dir_y s) = spiral_direction k \<and>
     steps_in_direction s = int (k div 2 + 1) \<and> steps_taken s = int t \<and> t < k div 2 + 1 \<and>
     direction_changes s = int k"

definition leg_right :: "int \<times> int \<Rightarrow> int \<Rightarrow> int \<Rightarrow> spiral_vars \<Rightarrow> bool" where
  "leg_right start m n s \<longleftrightarrow>
     direction_changes s = 4 * m \<and> dir_x s = 1 \<and> dir_y s = 0 \<and>
     steps_in_direction s = 2 * m + 1 \<and> 0 \<le> steps_taken s \<and> steps_taken s < 2 * m + 1 \<and>
     cur_x s = fst start - m + steps_taken s \<and> cur_y s = snd start - m \<and>
     n = 4 * m * m + 2 * m + steps_taken s"

definition leg_down :: "int \<times> int \<Rightarrow> int \<Rightarrow> int \<Rightarrow> spiral_vars \<Rightarrow> bool" where
  "leg_down start m n s \<longleftrightarrow>
     direction_changes s = 4 * m + 1 \<and> dir_x s = 0 \<and> dir_y s = 1 \<and>
     steps_in_direction s = 2 * m + 1 \<and> 0 \<le> steps_taken s \<and> steps_taken s < 2 * m + 1 \<and>
     cur_x s = fst start + m + 1 \<and> cur_y s = snd start - m + steps_taken s \<and>
     n = 4 * m * m + 4 * m + 1 + steps_taken s"

definition leg_left :: "int \<times> int \<Rightarrow> int \<Rightarrow> int \<Rightarrow> spiral_vars \<Rightarrow> bool" where
  "leg_left start m n s \<longleftrightarrow>
     direction_changes s = 4 * m + 2 \<and> dir_x s = - 1 \<and> dir_y s = 0 \<and>
     steps_in_direction s = 2 * m + 2 \<and> 0 \<le> steps_taken s \<and> steps_taken s < 2 * m + 2 \<and>
     cur_x s = fst start + m + 1 - steps_taken s \<and> cur_y s = snd start + m + 1 \<and>
     n = 4 * m * m + 6 * m + 2 + steps_taken s"

definition leg_up :: "int \<times> int \<Rightarrow> int \<Rightarrow> int \<Rightarrow> spiral_vars \<Rightarrow> bool" where
  "leg_up start m n s \<longleftrightarrow>
     direction_changes s = 4 * m + 3 \<and> dir_x s = 0 \<and> dir_y s = - 1 \<and>
     steps_in_direction s = 2 * m + 2 \<and> 0 \<le> steps_taken s \<and> steps_taken s < 2 * m + 2 \<and>
     cur_x s = fst start - m - 1 \<and> cur_y s = snd start + m + 1 - steps_taken s \<and>
     n = 4 * m * m + 8 * m + 4 + steps_taken s"

definition spiral_inv :: "int \<times> int \<Rightarrow> int \<Rightarrow> spiral_vars \<Rightarrow> bool" where
  "spiral_inv start n s \<longleftrightarrow>
     (\<exists>m\<ge>0. leg_right start m n s \<or> leg_down start m n s \<or> leg_left start m n s \<or> leg_up start m n s)"

subsection \<open>The binary heap of Python's heapq module\<close>

text \<open>
  \<open>find_path\<close> keeps its open set in a list managed by \<open>heapq.heappush\<close> and
  \<open>heapq.heappop\<close> of the Python standard library. They are modelled as the library
  defines them (\<open>_siftdown\<close>, \<open>_siftup\<close>), over an order \<open>lt\<close> that stands for
  \<open>__lt__\<close>. The indices the library reads are always inside the list.
\<close>

function siftdown_loop :: "('a \<Rightarrow> 'a \<Rightarrow> bool) \<Rightarrow> 'a list \<Rightarrow> nat \<Rightarrow> nat \<Rightarrow> 'a \<Rightarrow> 'a list" where
  "siftdown_loop lt heap startpos pos newitem =
     (if pos > startpos
      then (let parentpos = (pos - 1) div 2;
                parent = heap ! parentpos
            in if lt newitem parent
               then siftdown_loop lt (heap[pos := parent]) startpos parentpos newitem
               else heap[pos := newitem])
      else heap[pos := newitem])"
  by pat_completeness auto
termination
  by (relation "measure (\<lambda>(lt, heap, startpos, pos, newitem). pos)") auto

declare siftdown_loop.simps [simp del]

definition siftdown :: "('a \<Rightarrow> 'a \<Rightarrow> bool) \<Rightarrow> 'a list \<Rightarrow> nat \<Rightarrow> nat \<Rightarrow> 'a list" where
  "siftdown lt heap startpos pos = siftdown_loop lt heap startpos pos (heap ! pos)"

function siftup_loop :: "('a \<Rightarrow> 'a \<Rightarrow> bool) \<Rightarrow> 'a list \<Rightarrow> nat \<Rightarrow> 'a list \<times> nat" where
  "siftup_loop lt heap pos =
     (let childpos = 2 * pos + 1
      in if childpos < length heap
         then (let rightpos = childpos + 1;
                   childpos = (if rightpos < length heap \<and> \<not> lt (heap ! childpos) (heap ! rightpos)
                               then rightpos else childpos)
               in siftup_loop lt (heap[pos := heap ! childpos]) childpos)
         else (heap, pos))"
  by pat_completeness auto
termination
  by (relation "measure (\<lambda>(lt, heap, pos). length heap - pos)") (auto simp add: Let_def)

declare siftup_loop.simps [simp del]

definition siftup :: "('a \<Rightarrow> 'a \<Rightarrow> bool) \<Rightarrow> 'a list \<Rightarrow> nat \<Rightarrow> 'a list" where
  "siftup lt heap pos =
     (let newitem = heap ! pos;
          (heap1, pos1) = siftup_loop lt heap pos
      in siftdown lt (heap1[pos1 := newitem]) pos pos1)"

definition heappush :: "('a \<Rightarrow> 'a \<Rightarrow> bool) \<Rightarrow> 'a list \<Rightarrow> 'a \<Rightarrow> 'a list" where
  "heappush lt heap item = siftdown lt (heap @ [item]) 0 (length (heap @ [item]) - 1)"

definition heappop :: "('a \<Rightarrow> 'a \<Rightarrow> bool) \<Rightarrow> 'a list \<Rightarrow> py_error + 'a \<times> 'a list" where
  "heappop lt heap =
     (if heap = [] then Inl IndexError
      else (let lastelt = last heap;
                heap1 = butlast heap
            in if heap1 \<noteq> []
               then (let returnitem = heap1 ! 0
                     in Inr (returnitem, siftup lt (heap1[0 := lastelt]) 0))
               else Inr (lastelt, heap1)))"


text \<open>Both operations keep the items and change the length by one.\<close>

lemma length_siftdown_loop [simp]:
  "length (siftdown_loop lt heap startpos pos newitem) = length heap"
proof (induction lt heap startpos pos newitem rule: siftdown_loop.induct)
  case (1 lt heap startpos pos newitem)
  then show ?case
    by (subst siftdown_loop.simps) (simp add: Let_def)
qed

lemma set_siftdown_loop:
  "pos < length heap \<Longrightarrow>
   set (siftdown_loop lt heap startpos pos newitem) \<subseteq> insert newitem (set heap)"
proof (induction lt heap startpos pos newitem rule: siftdown_loop.induct)
  case (1 lt heap startpos pos newitem)
  show ?case
  proof (cases "pos > startpos \<and> lt newitem (heap ! ((pos - 1) div 2))")
    case True
    with "1.prems" have par: "(pos - 1) div 2 < length heap" by simp
    then have "heap ! ((pos - 1) div 2) \<in> set heap" by simp
    then have upd: "set (heap[pos := heap ! ((pos - 1) div 2)]) \<subseteq> set heap"
      using set_update_subset_insert [of heap pos "heap ! ((pos - 1) div 2)"] by auto
    from True par have "set (siftdown_loop lt (heap[pos := heap ! ((pos - 1) div 2)]) startpos ((pos - 1) div 2) newitem)
        \<subseteq> insert newitem (set (heap[pos := heap ! ((pos - 1) div 2)]))"
      by (intro "1.IH") simp_all
    with upd True show ?thesis
      by (subst siftdown_loop.simps) (auto simp add: Let_def)
  next
    case False
    then have "siftdown_loop lt heap startpos pos newitem = heap[pos := newitem]"
      by (subst siftdown_loop.simps) (auto simp add: Let_def)
    then show ?thesis
      using set_update_subset_insert [of heap pos newitem] by simp
  qed
qed

lemma length_siftdown [simp]: "length (siftdown lt heap startpos pos) = length heap"
  by (simp add: siftdown_def)

lemma set_siftdown: "pos < length heap \<Longrightarrow> set (siftdown lt heap startpos pos) \<subseteq> set heap"
  using set_siftdown_loop [of pos heap lt startpos "heap ! pos"] by (auto simp add: siftdown_def)

lemma siftup_loop_props:
  "pos < length heap \<Longrightarrow>
   length (fst (siftup_loop lt heap pos)) = length heap \<and>
   set (fst (siftup_loop lt heap pos)) \<subseteq> set heap \<and>
   snd (siftup_loop lt heap pos) < length heap"
proof (induction "length heap - pos" arbitrary: heap pos rule: less_induct)
  case less
  show ?case
  proof (cases "2 * pos + 1 < length heap")
    case True
    define c where "c = (if 2 * pos + 1 + 1 < length heap \<and> \<not> lt (heap ! (2 * pos + 1)) (heap ! (2 * pos + 1 + 1))
                         then 2 * pos + 1 + 1 else 2 * pos + 1)"
    from True have c: "c < length heap" and pc: "pos < c" by (simp_all add: c_def)
    then have "heap ! c \<in> set heap" by simp
    then have upd: "set (heap[pos := heap ! c]) \<subseteq> set heap"
      using set_update_subset_insert [of heap pos "heap ! c"] by auto
    have unfold: "siftup_loop lt heap pos = siftup_loop lt (heap[pos := heap ! c]) c"
      using True unfolding c_def by (subst siftup_loop.simps) (simp add: Let_def)
    from c pc have "length (fst (siftup_loop lt (heap[pos := heap ! c]) c)) = length (heap[pos := heap ! c]) \<and>
        set (fst (siftup_loop lt (heap[pos := heap ! c]) c)) \<subseteq> set (heap[pos := heap ! c]) \<and>
        snd (siftup_loop lt (heap[pos := heap ! c]) c) < length (heap[pos := heap ! c])"
      by (intro less.hyps) simp_all
    with upd show ?thesis
      unfolding unfold by auto
  next
    case False
    then have "siftup_loop lt heap pos = (heap, pos)"
      by (subst siftup_loop.simps) (simp add: Let_def)
    with less.prems show ?thesis by simp
  qed
qed

lemma siftup_props:
  assumes "pos < length heap"
  shows "length (siftup lt heap pos) = length heap \<and> set (siftup lt heap pos) \<subseteq> set heap"
proof -
  obtain heap1 pos1 where loop: "siftup_loop lt heap pos = (heap1, pos1)"
    by (cases "siftup_loop lt heap pos")
  from siftup_loop_props [OF assms, of lt] loop
  have len: "length heap1 = length heap" and sub: "set heap1 \<subseteq> set heap" and pos1: "pos1 < length heap"
    by simp_all
  from assms have "heap ! pos \<in> set heap" by simp
  with sub have "set (heap1[pos1 := heap ! pos]) \<subseteq> set heap"
    using set_update_subset_insert [of heap1 pos1 "heap ! pos"] by auto
  moreover have "set (siftdown lt (heap1[pos1 := heap ! pos]) pos pos1) \<subseteq> set (heap1[pos1 := heap ! pos])"
    using pos1 len by (intro set_siftdown) simp
  ultimately show ?thesis
    using len loop by (auto simp add: siftup_def Let_def)
qed

lemma length_heappush [simp]: "length (heappush lt heap item) = Suc (length heap)"
  by (simp add: heappush_def)

lemma set_heappush: "set (heappush lt heap item) \<subseteq> insert item (set heap)"
  using set_siftdown [of "length heap" "heap @ [item]" lt 0] by (auto simp add: heappush_def)

lemma butlast_nonempty: "butlast xs \<noteq> [] \<Longrightarrow> Suc 0 < length xs"
  by (cases xs rule: rev_cases) auto

lemma heappop_props:
  assumes "heap \<noteq> []"
  obtains item heap' where "heappop lt heap = Inr (item, heap')"
    and "item \<in> set heap" and "set heap' \<subseteq> set heap" and "Suc (length heap') = length heap"
proof (cases "butlast heap = []")
  case True
  with assms have "heappop lt heap = Inr (last heap, [])"
    by (simp add: heappop_def Let_def)
  moreover from assms True have "Suc (length ([] :: 'a list)) = length heap"
    by (cases heap) (simp_all split: if_splits)
  ultimately show ?thesis
    using assms by (intro that [of "last heap" "[]"]) simp_all
next
  case False
  let ?h = "(butlast heap)[0 := last heap]"
  from False have pos: "0 < length ?h" by (simp add: butlast_nonempty)
  from False assms have pop: "heappop lt heap = Inr (butlast heap ! 0, siftup lt ?h 0)"
    by (simp add: heappop_def Let_def)
  have sub: "set (butlast heap) \<subseteq> set heap"
    by (auto dest: in_set_butlastD)
  from False have "butlast heap ! 0 \<in> set (butlast heap)" by (cases "butlast heap") simp_all
  with sub have item: "butlast heap ! 0 \<in> set heap" by auto
  have "set ?h \<subseteq> insert (last heap) (set (butlast heap))"
    by (rule set_update_subset_insert)
  with sub assms have h: "set ?h \<subseteq> set heap" by auto
  from siftup_props [OF pos, of lt] h
  have "set (siftup lt ?h 0) \<subseteq> set heap" and "length (siftup lt ?h 0) = length (butlast heap)"
    by auto
  moreover from butlast_nonempty [OF False] have "Suc (length (butlast heap)) = length heap" by simp
  ultimately show ?thesis
    using pop item by (intro that [of "butlast heap ! 0" "siftup lt ?h 0"]) simp_all
qed

subsection \<open>A* search\<close>

text \<open>
  A node object is reached through references: from the heap, from \<open>node_map\<close> and from
  the \<open>parent\<close> field of other nodes. There is one node per cell, made when the cell is
  first met and kept in \<open>node_map\<close> from then on, so a reference is modelled by the cell
  and the objects by the map from cells to nodes; writing a field of a node is an
  update of that map, seen through every reference. Costs are counted in thousandths, so
  that the step costs 1.0 and 1.414 are the integers 1000 and 1414 and the Manhattan
  heuristic \<open>h\<close> weighs \<open>1000 * h\<close> in \<open>f = g + h\<close>.
\<close>

type_synonym cell = "int \<times> int"

record PathPlanNode =
  node_position :: cell
  g_cost :: nat
  h_cost :: int
  parent :: "cell option"

definition f_cost :: "PathPlanNode \<Rightarrow> int" where
  "f_cost n = int (g_cost n) + 1000 * h_cost n"

text \<open>Following a reference. Every reference that is followed points to a node of the map.\<close>

definition deref :: "(cell \<rightharpoonup> PathPlanNode) \<Rightarrow> cell \<Rightarrow> PathPlanNode" where
  "deref nodes c =
     (case nodes c of Some n \<Rightarrow> n
      | None \<Rightarrow> \<lparr>node_position = c, g_cost = 0, h_cost = 0, parent = None\<rparr>)"

definition node_lt :: "(cell \<rightharpoonup> PathPlanNode) \<Rightarrow> cell \<Rightarrow> cell \<Rightarrow> bool" where
  "node_lt nodes a b \<longleftrightarrow> f_cost (deref nodes a) < f_cost (deref nodes b)"

definition heuristic :: "cell \<Rightarrow> cell \<Rightarrow> int" where
  "heuristic pos1 pos2 = \<bar>fst pos1 - fst pos2\<bar> + \<bar>snd pos1 - snd pos2\<bar>"

text \<open>
  What a call does: it returns a value, raises, or does not return. The walk back along
  the \<open>parent\<close> references is a \<open>while\<close> loop with no bound of its own; \<open>None\<close> of
  \<open>reconstruct_path\<close> stands for a walk that does not end.
\<close>

datatype 'a outcome = Returns 'a | Raises py_error | Diverges

partial_function (option) reconstruct_path ::
  "(cell \<rightharpoonup> PathPlanNode) \<Rightarrow> cell option \<Rightarrow> cell list \<Rightarrow> cell list option" where
  "reconstruct_path nodes current path =
     (case current of
        None \<Rightarrow> Some (rev path)
      | Some c \<Rightarrow>
          reconstruct_path nodes (parent (deref nodes c)) (path @ [node_position (deref nodes c)]))"

record astar_vars =
  open_set :: "cell list"
  closed_set :: "cell set"
  node_map :: "cell \<rightharpoonup> PathPlanNode"

text \<open>The body of the loop over the neighbours of the current node.\<close>

definition relax :: "cell \<Rightarrow> cell \<Rightarrow> astar_vars \<Rightarrow> cell \<Rightarrow> astar_vars" where
  "relax goal current s neighbor_pos =
     (if neighbor_pos \<in> closed_set s then s
      else
        let cur = deref (node_map s) current;
            move_cost = (if fst neighbor_pos = fst (node_position cur) \<or>
                            snd neighbor_pos = snd (node_position cur)
                         then 1000 else 1414);
            g = g_cost cur + move_cost;
            h = heuristic neighbor_pos goal
        in case node_map s neighbor_pos of
             Some neighbor_node \<Rightarrow>
               if g < g_cost neighbor_node
               then let nodes = (node_map s)(neighbor_pos \<mapsto> neighbor_node\<lparr>g_cost := g, parent := Some current\<rparr>)
                    in s\<lparr>node_map := nodes,
                         open_set := heappush (node_lt nodes) (open_set s) neighbor_pos\<rparr>
               else s
           | None \<Rightarrow>
               let nodes = (node_map s)(neighbor_pos \<mapsto>
                              \<lparr>node_position = neighbor_pos, g_cost = g, h_cost = h, parent = Some current\<rparr>)
               in s\<lparr>node_map := nodes,
                    open_set := heappush (node_lt nodes) (open_set s) neighbor_pos\<rparr>)"

text \<open>
  The \<open>while open_set\<close> loop stops: a pass takes one item off the heap, and every push
  either makes a node for a valid cell that had none, or lowers the cost \<open>g\<close> of a node.
\<close>

definition valid_cells :: "PathPlanner \<Rightarrow> cell set" where
  "valid_cells P = {c. is_valid_position P (fst c) (snd c)}"

definition unseen :: "PathPlanner \<Rightarrow> astar_vars \<Rightarrow> nat" where
  "unseen P s = card {c \<in> valid_cells P. node_map s c = None}"

definition total_g :: "PathPlanner \<Rightarrow> astar_vars \<Rightarrow> nat" where
  "total_g P s = (\<Sum>c \<in> valid_cells P. case node_map s c of None \<Rightarrow> 0 | Some n \<Rightarrow> g_cost n)"

definition astar_measure :: "PathPlanner \<times> cell \<times> bool \<times> astar_vars \<Rightarrow> nat \<times> nat \<times> nat" where
  "astar_measure = (\<lambda>(P, goal, diagonal, s). (unseen P s, total_g P s, length (open_set s)))"

lemma finite_valid_cells: "finite (valid_cells P)"
proof -
  have "valid_cells P \<subseteq> {0..<planner_width P} \<times> {0..<planner_height P}"
    by (auto simp add: valid_cells_def is_valid_position_def split: if_splits)
  then show ?thesis
    by (rule finite_subset) simp
qed

definition progress :: "PathPlanner \<Rightarrow> astar_vars \<Rightarrow> astar_vars \<Rightarrow> bool" where
  "progress P s' s \<longleftrightarrow>
     (unseen P s' = unseen P s \<and> total_g P s' = total_g P s \<and> open_set s' = open_set s) \<or>
     unseen P s' < unseen P s \<or> (unseen P s' = unseen P s \<and> total_g P s' < total_g P s)"

lemma progress_refl: "progress P s s"
  by (simp add: progress_def)

lemma progress_trans: "progress P s2 s1 \<Longrightarrow> progress P s1 s0 \<Longrightarrow> progress P s2 s0"
  unfolding progress_def by (elim disjE conjE) simp_all

lemma unseen_new:
  assumes "c \<in> valid_cells P" and "node_map s c = None"
  shows "unseen P (s\<lparr>node_map := (node_map s)(c \<mapsto> n), open_set := h\<rparr>) < unseen P s"
proof -
  have "{d \<in> valid_cells P. ((node_map s)(c \<mapsto> n)) d = None} \<subset> {d \<in> valid_cells P. node_map s d = None}"
    using assms by auto
  moreover have "finite {d \<in> valid_cells P. node_map s d = None}"
    using finite_valid_cells by simp
  ultimately show ?thesis
    by (simp add: unseen_def psubset_card_mono)
qed

lemma unseen_update:
  assumes "node_map s c = Some m"
  shows "unseen P (s\<lparr>node_map := (node_map s)(c \<mapsto> n), open_set := h\<rparr>) = unseen P s"
proof -
  have "{d \<in> valid_cells P. ((node_map s)(c \<mapsto> n)) d = None} = {d \<in> valid_cells P. node_map s d = None}"
    using assms by auto
  then show ?thesis by (simp add: unseen_def)
qed

lemma total_g_update:
  assumes "c \<in> valid_cells P" and "node_map s c = Some m" and "g_cost n < g_cost m"
  shows "total_g P (s\<lparr>node_map := (node_map s)(c \<mapsto> n), open_set := h\<rparr>) < total_g P s"
  unfolding total_g_def
proof (rule sum_strict_mono_ex1)
  show "finite (valid_cells P)" by (rule finite_valid_cells)
  show "\<forall>d \<in> valid_cells P.
      (case node_map (s\<lparr>node_map := (node_map s)(c \<mapsto> n), open_set := h\<rparr>) d of None \<Rightarrow> 0 | Some k \<Rightarrow> g_cost k)
      \<le> (case node_map s d of None \<Rightarrow> 0 | Some k \<Rightarrow> g_cost k)"
    using assms by auto
  show "\<exists>d \<in> valid_cells P.
      (case node_map (s\<lparr>node_map := (node_map s)(c \<mapsto> n), open_set := h\<rparr>) d of None \<Rightarrow> 0 | Some k \<Rightarrow> g_cost k)
      < (case node_map s d of None \<Rightarrow> 0 | Some k \<Rightarrow> g_cost k)"
    using assms by (intro bexI [of _ c]) simp_all
qed

lemma relax_progress:
  assumes "nb \<in> valid_cells P"
  shows "progress P (relax goal current s nb) s"
proof (cases "nb \<in> closed_set s")
  case True
  then show ?thesis by (simp add: relax_def progress_refl)
next
  case False
  show ?thesis
  proof (cases "node_map s nb")
    case None
    with False assms show ?thesis
      by (simp add: relax_def Let_def progress_def unseen_new)
  next
    case (Some m)
    with False assms show ?thesis
      by (simp add: relax_def Let_def progress_def unseen_update total_g_update)
  qed
qed

lemma foldl_relax_progress:
  "set nbs \<subseteq> valid_cells P \<Longrightarrow> progress P (foldl (relax goal current) s nbs) s"
proof (induction nbs arbitrary: s)
  case Nil
  then show ?case by (simp add: progress_refl)
next
  case (Cons nb nbs)
  from Cons.prems have "progress P (foldl (relax goal current) (relax goal current s nb) nbs) (relax goal current s nb)"
    by (intro Cons.IH) simp
  moreover from Cons.prems have "progress P (relax goal current s nb) s"
    by (intro relax_progress) simp
  ultimately show ?case
    by (simp add: progress_trans)
qed

lemma get_neighbors_valid: "set (get_neighbors P x y diagonal) \<subseteq> valid_cells P"
  by (auto simp add: get_neighbors_def valid_cells_def)

function astar_loop :: "PathPlanner \<Rightarrow> cell \<Rightarrow> bool \<Rightarrow> astar_vars \<Rightarrow> cell list option outcome" where
  "astar_loop P goal diagonal s =
     (if open_set s = [] then Returns None
      else case heappop (node_lt (node_map s)) (open_set s) of
             Inl e \<Rightarrow> Raises e
           | Inr (current, heap) \<Rightarrow>
               let cur = deref (node_map s) current
               in if node_position cur = goal
                  then (case reconstruct_path (node_map s) (Some current) [] of
                          None \<Rightarrow> Diverges
                        | Some path \<Rightarrow> Returns (Some path))
                  else astar_loop P goal diagonal
                         (foldl (relax goal current)
                            (s\<lparr>open_set := heap, closed_set := insert (node_position cur) (closed_set s)\<rparr>)
                            (get_neighbors P (fst (node_position cur)) (snd (node_position cur)) diagonal)))"
  by pat_completeness auto
termination
proof (relation "inv_image (less_than <*lex*> less_than <*lex*> less_than) astar_measure")
  show "wf (inv_image (less_than <*lex*> less_than <*lex*> less_than) astar_measure)"
    by (intro wf_inv_image wf_lex_prod wf_less_than)
next
  fix P :: PathPlanner and goal :: cell and diagonal :: bool and s :: astar_vars
    and x2 :: "cell \<times> cell list" and current :: cell and heap :: "cell list" and cur :: PathPlanNode
  assume ne: "open_set s \<noteq> []"
    and pop: "heappop (node_lt (node_map s)) (open_set s) = Inr x2"
    and x2: "(current, heap) = x2"
    and cur: "cur = deref (node_map s) current"
  let ?s1 = "s\<lparr>open_set := heap, closed_set := insert (node_position cur) (closed_set s)\<rparr>"
  let ?s2 = "foldl (relax goal current) ?s1
               (get_neighbors P (fst (node_position cur)) (snd (node_position cur)) diagonal)"
  from heappop_props [OF ne, of "node_lt (node_map s)"] pop x2
  have len: "Suc (length heap) = length (open_set s)"
    by (metis Pair_inject sum.inject(2))
  have s1: "unseen P ?s1 = unseen P s" "total_g P ?s1 = total_g P s" "length (open_set ?s1) < length (open_set s)"
    using len by (simp_all add: unseen_def total_g_def)
  have "progress P ?s2 ?s1"
    by (rule foldl_relax_progress) (rule get_neighbors_valid)
  with s1 show "((P, goal, diagonal, ?s2), (P, goal, diagonal, s))
      \<in> inv_image (less_than <*lex*> less_than <*lex*> less_than) astar_measure"
    unfolding progress_def astar_measure_def by auto
qed


declare astar_loop.simps [simp del]

definition find_path :: "PathPlanner \<Rightarrow> cell \<Rightarrow> cell \<Rightarrow> bool \<Rightarrow> cell list option outcome" where
  "find_path P start goal diagonal =
     (if \<not> is_valid_position P (fst start) (snd start) \<or> \<not> is_valid_position P (fst goal) (snd goal)
      then Returns None
      else
        let start_node = \<lparr>node_position = start, g_cost = 0, h_cost = heuristic start goal, parent = None\<rparr>;
            nodes = [start \<mapsto> start_node];
            heap = heappush (node_lt nodes) [] start
        in astar_loop P goal diagonal \<lparr>open_set = heap, closed_set = {}, node_map = nodes\<rparr>)"

text \<open>
  The words of the specification: a cell is traversable when it lies inside the grid and
  is free (0) or dock (3); two cells are connected when a sequence of steps between
  edge-adjacent cells leads from one to the other over traversable cells.
\<close>

definition traversable :: "PathPlanner \<Rightarrow> cell \<Rightarrow> bool" where
  "traversable P c \<longleftrightarrow>
     0 \<le> fst c \<and> fst c < planner_width P \<and> 0 \<le> snd c \<and> snd c < planner_height P \<and>
     (environment P (snd c) (fst c) = 0 \<or> environment P (snd c) (fst c) = 3)"

inductive connected :: "PathPlanner \<Rightarrow> cell \<Rightarrow> cell \<Rightarrow> bool" for P :: PathPlanner and start :: cell where
  connected_start: "connected P start start"
| connected_step: "connected P start a \<Longrightarrow> traversable P b \<Longrightarrow>
     \<bar>fst a - fst b\<bar> + \<bar>snd a - snd b\<bar> = 1 \<Longrightarrow> connected P start b"

text \<open>A row of three cells with an obstacle in the middle.\<close>

definition row3 :: PathPlanner where
  "row3 = \<lparr>environment = (\<lambda>y x. if x = 1 then 1 else 0), planner_height = 1, planner_width = 3\<rparr>"

text \<open>What holds of the loop variables throughout a search from \<open>start\<close>.\<close>

definition astar_inv :: "PathPlanner \<Rightarrow> cell \<Rightarrow> astar_vars \<Rightarrow> bool" where
  "astar_inv P start s \<longleftrightarrow>
     (\<forall>c \<in> set (open_set s). connected P start c \<and> node_map s c \<noteq> None) \<and>
     (\<forall>c n. node_map s c = Some n \<longrightarrow> node_position n = c)"

section \<open>Localisation (slam.py)\<close>

record Particle =
  particle_x :: real
  particle_y :: real
  theta :: real
  weight :: real

record OccupancyGrid =
  grid_width :: int
  grid_height :: int
  resolution :: real
  grid :: "int \<Rightarrow> int \<Rightarrow> real"
  observed :: "int \<Rightarrow> int \<Rightarrow> bool"

text \<open>
  Of the occupancy grid only what the particle filter reads is modelled. \<open>update_cell\<close>
  keeps every log-odds entry between \<open>log_odds_min\<close> and \<open>log_odds_max\<close>, the two
  constants of the constructor; \<open>log_odds_clamped\<close> says so of a grid.
\<close>

definition log_odds_max :: real where
  "log_odds_max = 7 / 2"

definition log_odds_min :: real where
  "log_odds_min = - (7 / 2)"

definition log_odds_clamped :: "OccupancyGrid \<Rightarrow> bool" where
  "log_odds_clamped og \<longleftrightarrow>
     (\<forall>y \<in> {0..<grid_height og}. \<forall>x \<in> {0..<grid_width og}.
        log_odds_min \<le> grid og y x \<and> grid og y x \<le> log_odds_max)"

definition get_probability :: "OccupancyGrid \<Rightarrow> int \<Rightarrow> int \<Rightarrow> real" where
  "get_probability og x y =
     (if \<not> (0 \<le> x \<and> x < grid_width og \<and> 0 \<le> y \<and> y < grid_height og) then 1 / 2
      else if \<not> observed og y x then 1 / 2
      else (let odds = exp (grid og y x) in odds / (1 + odds)))"

record ParticleFilter =
  num_particles :: int
  filter_width :: int
  filter_height :: int
  particles :: "Particle list"

text \<open>
  The values drawn from \<open>np.random\<close> are arguments of the model: \<open>draw k\<close> holds the three
  numbers drawn for the \<open>k\<close>-th particle of a pass.
\<close>

definition ParticleFilter_init :: "int \<Rightarrow> int \<Rightarrow> int \<Rightarrow> (nat \<Rightarrow> real \<times> real \<times> real) \<Rightarrow> ParticleFilter" where
  "ParticleFilter_init n w h draw =
     \<lparr>num_particles = n, filter_width = w, filter_height = h,
      particles = map (\<lambda>k. \<lparr>particle_x = fst (draw k), particle_y = fst (snd (draw k)),
                             theta = snd (snd (draw k)), weight = 1 / of_int n\<rparr>) [0..<nat n]\<rparr>"

text \<open>Python's \<open>%\<close> on floats (the result has the sign of the divisor) and \<open>np.clip\<close>.\<close>

definition py_mod :: "real \<Rightarrow> real \<Rightarrow> real" where
  "py_mod a b = a - b * of_int \<lfloor>a / b\<rfloor>"

definition clip :: "real \<Rightarrow> real \<Rightarrow> real \<Rightarrow> real" where
  "clip v lo hi = min (max v lo) hi"

text \<open>
  The \<open>noise\<close> argument of \<open>predict\<close> is the scale of its draws. \<open>np.random.normal\<close>
  raises \<open>ValueError\<close> for a negative scale: with a particle to move, the first draw
  raises before anything is written.
\<close>

definition predict ::
  "ParticleFilter \<Rightarrow> real \<Rightarrow> real \<Rightarrow> real \<Rightarrow> real \<Rightarrow> (nat \<Rightarrow> real \<times> real \<times> real) \<Rightarrow>
   ParticleFilter outcome" where
  "predict pf delta_x delta_y delta_theta noise draw =
     (if particles pf \<noteq> [] \<and> noise < 0 then Raises ValueError
      else Returns (pf\<lparr>particles :=
          map (\<lambda>(k, p).
                 p\<lparr>particle_x := clip (particle_x p + (delta_x + fst (draw k))) 0 (of_int (filter_width pf - 1)),
                   particle_y := clip (particle_y p + (delta_y + fst (snd (draw k)))) 0 (of_int (filter_height pf - 1)),
                   theta := py_mod (theta p + (delta_theta + snd (snd (draw k)))) (2 * pi)\<rparr>)
              (enumerate 0 (particles pf))\<rparr>))"

text \<open>
  \<open>int(particle.x + (obs_x - particle.x))\<close> in \<open>update\<close>. For the subtraction the int
  \<open>obs_x\<close> is converted to a float, which raises \<open>OverflowError\<close> when it is out of the
  float range; a difference that overflows is an infinity, and \<open>int()\<close> raises
  \<open>OverflowError\<close> for an infinity.
\<close>

definition map_coordinate :: "real \<Rightarrow> int \<Rightarrow> py_error + int" where
  "map_coordinate v obs =
     (if overflows (of_int obs) \<or> overflows (of_int obs - v) then Inl OverflowError
      else Inr (py_int (v + (of_int obs - v))))"

text \<open>
  The loop of \<open>update\<close> over the measurement points, for one particle; \<open>acc\<close> is the
  variable \<open>likelihood\<close>.
\<close>

fun likelihood ::
  "ParticleFilter \<Rightarrow> OccupancyGrid \<Rightarrow> Particle \<Rightarrow> (int \<times> int) list \<Rightarrow> real \<Rightarrow> py_error + real" where
  "likelihood pf og p [] acc = Inr acc"
| "likelihood pf og p ((obs_x, obs_y) # measurement) acc =
     (case map_coordinate (particle_x p) obs_x of
        Inl e \<Rightarrow> Inl e
      | Inr map_x \<Rightarrow>
         (case map_coordinate (particle_y p) obs_y of
            Inl e \<Rightarrow> Inl e
          | Inr map_y \<Rightarrow>
             likelihood pf og p measurement
               (if 0 \<le> map_x \<and> map_x < filter_width pf \<and> 0 \<le> map_y \<and> map_y < filter_height pf
                then acc + get_probability og map_x map_y else acc)))"

text \<open>
  The loop of \<open>update\<close> over the particles, which sets the weights before they are
  normalised. When a conversion raises, the call ends with the exception; the weights
  that the loop has set by then are not kept in the model, where a run ends with the
  exception.
\<close>

fun reweight ::
  "ParticleFilter \<Rightarrow> OccupancyGrid \<Rightarrow> (int \<times> int) list \<Rightarrow> Particle list \<Rightarrow> py_error + Particle list" where
  "reweight pf og measurement [] = Inr []"
| "reweight pf og measurement (p # ps) =
     (case likelihood pf og p measurement 0 of
        Inl e \<Rightarrow> Inl e
      | Inr l \<Rightarrow>
         (case reweight pf og measurement ps of
            Inl e \<Rightarrow> Inl e
          | Inr qs \<Rightarrow> Inr (p\<lparr>weight := l + 1 / 10 ^ 10\<rparr> # qs)))"

definition update :: "ParticleFilter \<Rightarrow> (int \<times> int) list \<Rightarrow> OccupancyGrid \<Rightarrow> ParticleFilter outcome" where
  "update pf measurement og =
     (if measurement = [] then Returns pf
      else case reweight pf og measurement (particles pf) of
             Inl e \<Rightarrow> Raises e
           | Inr ps \<Rightarrow>
               let total_weight = sum_list (map weight ps)
               in if total_weight > 0
                  then Returns (pf\<lparr>particles := map (\<lambda>p. p\<lparr>weight := weight p / total_weight\<rparr>) ps\<rparr>)
                  else Returns (pf\<lparr>particles := ps\<rparr>))"

text \<open>
  The measurement points that \<open>update\<close> can convert for every particle: the coordinates
  and their differences to the particle coordinates are within the float range.
\<close>

definition in_float_range :: "ParticleFilter \<Rightarrow> (int \<times> int) list \<Rightarrow> bool" where
  "in_float_range pf measurement \<longleftrightarrow>
     (\<forall>p \<in> set (particles pf). \<forall>(obs_x, obs_y) \<in> set measurement.
        \<not> overflows (of_int obs_x) \<and> \<not> overflows (of_int obs_x - particle_x p) \<and>
        \<not> overflows (of_int obs_y) \<and> \<not> overflows (of_int obs_y - particle_y p))"

text \<open>
  The inner \<open>while u > c\<close> loop of \<open>resample\<close> has no bound of its own; \<open>None\<close> stands for
  a loop that does not end. Whether it ends depends on how the sums \<open>c + weight\<close> round,
  so no theorem here says that it does.
\<close>

partial_function (option) advance :: "Particle list \<Rightarrow> real \<Rightarrow> nat \<Rightarrow> real \<Rightarrow> (nat \<times> real) option" where
  "advance ps u i c =
     (if u > c
      then (let i' = (if i + 1 \<ge> length ps then 0 else i + 1)
            in advance ps u i' (c + weight (ps ! i')))
      else Some (i, c))"

fun resample_loop ::
  "ParticleFilter \<Rightarrow> real \<Rightarrow> (nat \<Rightarrow> real \<times> real \<times> real) \<Rightarrow> nat list \<Rightarrow> nat \<Rightarrow> real \<Rightarrow>
   Particle list \<Rightarrow> ParticleFilter outcome" where
  "resample_loop pf r draw [] i c new_particles = Returns (pf\<lparr>particles := new_particles\<rparr>)"
| "resample_loop pf r draw (m # ms) i c new_particles =
     (let u = r + of_nat m * (1 / of_int (num_particles pf))
      in case advance (particles pf) u i c of
           None \<Rightarrow> Diverges
         | Some (i', c') \<Rightarrow>
             resample_loop pf r draw ms i' c'
               (new_particles @
                [\<lparr>particle_x = particle_x (particles pf ! i') + fst (draw m),
                  particle_y = particle_y (particles pf ! i') + fst (snd (draw m)),
                  theta = theta (particles pf ! i') + snd (snd (draw m)),
                  weight = 1 / of_int (num_particles pf)\<rparr>]))"

definition resample :: "ParticleFilter \<Rightarrow> real \<Rightarrow> (nat \<Rightarrow> real \<times> real \<times> real) \<Rightarrow> ParticleFilter outcome" where
  "resample pf r draw =
     (if num_particles pf = 0 then Raises ZeroDivisionError
      else case particles pf of
             [] \<Rightarrow> Raises IndexError
           | p # ps \<Rightarrow> resample_loop pf r draw [0..<nat (num_particles pf)] 0 (weight p) [])"

text \<open>A run of the filter: the constructor followed by calls of its three operations.\<close>

datatype filter_op =
    Predict real real real real "nat \<Rightarrow> real \<times> real \<times> real"
  | Update "(int \<times> int) list" OccupancyGrid
  | Resample real "nat \<Rightarrow> real \<times> real \<times> real"

fun filter_call :: "ParticleFilter \<Rightarrow> filter_op \<Rightarrow> ParticleFilter outcome" where
  "filter_call pf (Predict dx dy dt noise draw) = predict pf dx dy dt noise draw"
| "filter_call pf (Update measurement og) = update pf measurement og"
| "filter_call pf (Resample r draw) = resample pf r draw"

fun filter_run :: "ParticleFilter \<Rightarrow> filter_op list \<Rightarrow> ParticleFilter outcome" where
  "filter_run pf [] = Returns pf"
| "filter_run pf (c # cs) =
     (case filter_call pf c of Returns pf' \<Rightarrow> filter_run pf' cs | Raises e \<Rightarrow> Raises e | Diverges \<Rightarrow> Diverges)"

text \<open>What holds of a filter throughout a run.\<close>

definition filter_ok :: "ParticleFilter \<Rightarrow> bool" where
  "filter_ok pf \<longleftrightarrow> int (length (particles pf)) = num_particles pf"

text \<open>
  Fixed inputs for concrete evaluation: draws that are all zero, a grid never observed,
  and the filter of two particles constructed with these draws.
\<close>

definition draw0 :: "nat \<Rightarrow> real \<times> real \<times> real" where
  "draw0 = (\<lambda>k. (0, 0, 0))"

definition grid0 :: OccupancyGrid where
  "grid0 = \<lparr>grid_width = 10, grid_height = 10, resolution = 1 / 20,
     grid = (\<lambda>y x. 0), observed = (\<lambda>y x. False)\<rparr>"

definition filter2 :: ParticleFilter where
  "filter2 = ParticleFilter_init 2 10 10 draw0"

section \<open>Facts about the robot\<close>

lemma move_fail: "battery_level r \<le> 0 \<Longrightarrow> move fl r dx dy = (Inr False, r\<lparr>state := ERROR\<rparr>)"
  by (simp add: move_def)

lemma move_raises:
  "0 < battery_level r \<Longrightarrow> overflows (dx\<^sup>2) \<or> overflows (dy\<^sup>2) \<Longrightarrow>
   move fl r dx dy =
     (Inl OverflowError,
      r\<lparr>position := Position (fl (pos_x (position r) + dx)) (fl (pos_y (position r) + dy)),
        path_history := path_history r @ [Position (fl (pos_x (position r) + dx)) (fl (pos_y (position r) + dy))]\<rparr>)"
  by (auto simp add: move_def py_square_def Let_def)

lemma move_ok:
  "0 < battery_level r \<Longrightarrow> \<not> overflows (dx\<^sup>2) \<Longrightarrow> \<not> overflows (dy\<^sup>2) \<Longrightarrow>
   move fl r dx dy =
     (Inr True,
      r\<lparr>position := Position (fl (pos_x (position r) + dx)) (fl (pos_y (position r) + dy)),
        path_history := path_history r @ [Position (fl (pos_x (position r) + dx)) (fl (pos_y (position r) + dy))],
        stats := (stats r)\<lparr>total_distance :=
                             fl (total_distance (stats r) + fl (sqrt (fl (fl (dx\<^sup>2) + fl (dy\<^sup>2))))),
           area_cleaned := card (insert (to_grid (Position (fl (pos_x (position r) + dx)) (fl (pos_y (position r) + dy)))) (cleaned_cells r))\<rparr>,
        battery_level := max 0 (fl (battery_level r - fl (fl (sqrt (fl (fl (dx\<^sup>2) + fl (dy\<^sup>2)))) * fl (1 / 10)))),
        visited_cells := insert (to_grid (Position (fl (pos_x (position r) + dx)) (fl (pos_y (position r) + dy)))) (visited_cells r),
        cleaned_cells := insert (to_grid (Position (fl (pos_x (position r) + dx)) (fl (pos_y (position r) + dy)))) (cleaned_cells r)\<rparr>)"
  by (simp add: move_def py_square_def Let_def)

lemma py_int_floor: "0 \<le> v \<Longrightarrow> py_int v = \<lfloor>v\<rfloor>"
  by (simp add: py_int_def)

lemma move_level:
  "battery_level (snd (move fl r dx dy)) =
     (if battery_level r \<le> 0 \<or> overflows (dx\<^sup>2) \<or> overflows (dy\<^sup>2) then battery_level r
      else max 0 (fl (battery_level r - fl (fl (sqrt (fl (fl (dx\<^sup>2) + fl (dy\<^sup>2)))) * fl (1 / 10)))))"
  by (cases "battery_level r \<le> 0"; cases "overflows (dx\<^sup>2)"; cases "overflows (dy\<^sup>2)")
     (simp_all add: move_def py_square_def Let_def)

lemma move_capacity: "battery_capacity (snd (move fl r dx dy)) = battery_capacity r"
  by (cases "battery_level r \<le> 0"; cases "overflows (dx\<^sup>2)"; cases "overflows (dy\<^sup>2)")
     (simp_all add: move_def py_square_def Let_def)

lemma move_flag:
  "fst (move fl r dx dy) = Inr True \<longleftrightarrow>
     0 < battery_level r \<and> \<not> overflows (dx\<^sup>2) \<and> \<not> overflows (dy\<^sup>2)"
  by (cases "battery_level r \<le> 0"; cases "overflows (dx\<^sup>2)"; cases "overflows (dy\<^sup>2)")
     (simp_all add: move_def py_square_def Let_def)

lemma overflows_large: "2 ^ 1024 \<le> \<bar>v\<bar> \<Longrightarrow> overflows v"
  by (simp add: overflows_def)

lemma huge_overflows: "overflows (huge\<^sup>2)"
proof -
  have "huge\<^sup>2 = 2 ^ 1400"
    unfolding huge_def power_mult [symmetric] by simp
  moreover have "(2 :: real) ^ 1024 \<le> 2 ^ 1400"
    by (rule power_increasing) simp_all
  ultimately show ?thesis
    by (intro overflows_large) simp
qed

text \<open>What a monotone rounding that keeps 0 gives: the battery consumption is not negative.\<close>

lemma rounding_nonneg: "rounding fl \<Longrightarrow> 0 \<le> v \<Longrightarrow> 0 \<le> fl v"
  unfolding rounding_def using monoD [of fl 0 v] by simp

lemma consumption_nonneg:
  assumes "rounding fl"
  shows "0 \<le> fl (fl (sqrt (fl (fl (dx\<^sup>2) + fl (dy\<^sup>2)))) * fl (1 / 10))"
proof -
  note nn = rounding_nonneg [OF assms]
  have "0 \<le> fl (dx\<^sup>2)" and "0 \<le> fl (dy\<^sup>2)"
    by (simp_all add: nn)
  then have "0 \<le> fl (fl (dx\<^sup>2) + fl (dy\<^sup>2))"
    by (simp add: nn)
  then have "0 \<le> fl (sqrt (fl (fl (dx\<^sup>2) + fl (dy\<^sup>2))))"
    by (simp add: nn)
  moreover have "0 \<le> fl (1 / 10)"
    by (simp add: nn)
  ultimately show ?thesis
    by (simp add: nn)
qed

lemma rounding_below:
  assumes "rounding fl" and "fl b = b" and "a \<le> b"
  shows "fl a \<le> b"
  using assms monoD [of fl a b] by (simp add: rounding_def)

lemma move_level_le:
  assumes "rounding fl" and "fl bound = bound" and "battery_level r \<le> bound" and "0 \<le> bound"
  shows "battery_level (snd (move fl r dx dy)) \<le> bound"
proof -
  define c where "c = fl (fl (sqrt (fl (fl (dx\<^sup>2) + fl (dy\<^sup>2)))) * fl (1 / 10))"
  have "0 \<le> c"
    unfolding c_def by (rule consumption_nonneg [OF assms(1)])
  with assms(3) have "battery_level r - c \<le> bound"
    by simp
  then have "fl (battery_level r - c) \<le> bound"
    by (rule rounding_below [OF assms(1) assms(2)])
  with assms(3) assms(4) show ?thesis
    unfolding move_level c_def [symmetric] by (simp add: max_def)
qed

lemma move_level_nonneg: "0 \<le> battery_level r \<Longrightarrow> 0 \<le> battery_level (snd (move fl r dx dy))"
  by (simp add: move_level max_def)

lemma charge_level:
  "battery_level (snd (charge r rate)) = min (battery_capacity r) (battery_level r + rate)"
  by (simp add: charge_def Let_def)

lemma charge_capacity: "battery_capacity (snd (charge r rate)) = battery_capacity r"
  by (simp add: charge_def Let_def)

lemma charge_flag:
  "fst (charge r rate) = (battery_capacity r \<le> battery_level r + rate)"
  by (simp add: charge_def Let_def)

lemma charge_cycles:
  "battery_cycles (stats (snd (charge r rate))) =
     battery_cycles (stats r) + (if battery_capacity r \<le> battery_level r + rate then 1 else 0)"
  by (simp add: charge_def Let_def)

lemma charge_state: "state (snd (charge r rate)) = CHARGING"
  by (simp add: charge_def Let_def)

lemma call_capacity: "battery_capacity (call fl r c) = battery_capacity r"
  by (cases c) (simp_all add: move_capacity charge_capacity)

lemma call_battery_ok:
  assumes "rounding fl" and "fl (battery_capacity r) = battery_capacity r"
    and "battery_ok r" and "charge_rate_ok c"
  shows "battery_ok (call fl r c)"
proof (cases c)
  case (Move dx dy)
  from assms(3) have "0 \<le> battery_level r" and "battery_level r \<le> battery_capacity r"
    by (simp_all add: battery_ok_def)
  then have "0 \<le> battery_capacity r"
    by simp
  with assms(1,2) \<open>0 \<le> battery_level r\<close> \<open>battery_level r \<le> battery_capacity r\<close>
  show ?thesis
    unfolding Move battery_ok_def call.simps move_capacity
    by (simp add: move_level_le move_level_nonneg)
next
  case (Charge rate)
  with assms(3,4) show ?thesis
    unfolding Charge battery_ok_def call.simps charge_level charge_capacity
    by (simp add: min_def)
qed

lemma calls_capacity: "battery_capacity (calls fl r cs) = battery_capacity r"
  by (induction cs arbitrary: r) (simp_all add: call_capacity)

lemma calls_battery_ok:
  "rounding fl \<Longrightarrow> fl (battery_capacity r) = battery_capacity r \<Longrightarrow> battery_ok r \<Longrightarrow>
   \<forall>c \<in> set cs. charge_rate_ok c \<Longrightarrow> battery_ok (calls fl r cs)"
  by (induction cs arbitrary: r) (simp_all add: call_battery_ok call_capacity)

lemma init_battery_ok: "0 \<le> capacity \<Longrightarrow> battery_ok (RobotVacuum_init p capacity cw sp sr)"
  by (simp add: battery_ok_def RobotVacuum_init_def)

lemma rounding_unrounded: "rounding unrounded"
  by (simp add: rounding_def unrounded_def mono_def)

section \<open>Facts about the planners\<close>

subsection \<open>Zigzag\<close>

lemma is_valid_position_iff:
  "is_valid_position P x y \<longleftrightarrow>
     0 \<le> x \<and> x < planner_width P \<and> 0 \<le> y \<and> y < planner_height P \<and>
     (environment P y x = 0 \<or> environment P y x = 3)"
  by (auto simp add: is_valid_position_def)

lemma set_generate_zigzag_path:
  "set (generate_zigzag_path P start horizontal) = {(x, y). is_valid_position P x y}"
proof (cases horizontal)
  case True
  then show ?thesis
    by (auto simp add: generate_zigzag_path_def is_valid_position_iff)
next
  case False
  then show ?thesis
    by (auto simp add: generate_zigzag_path_def is_valid_position_iff)
qed

lemma sorted_wrt_concat_map:
  assumes "sorted_wrt (<) ys"
    and "\<And>y. y \<in> set ys \<Longrightarrow> sorted_wrt R (f y)"
    and "\<And>y y' a b. y < y' \<Longrightarrow> a \<in> set (f y) \<Longrightarrow> b \<in> set (f y') \<Longrightarrow> R a b"
  shows "sorted_wrt R (concat (map f (ys :: int list)))"
  using assms(1,2)
proof (induction ys)
  case Nil
  then show ?case by simp
next
  case (Cons y ys)
  from Cons.prems have "sorted_wrt R (f y)" and "sorted_wrt R (concat (map f ys))"
    by (simp_all add: Cons.IH)
  moreover have "\<forall>a \<in> set (f y). \<forall>b \<in> set (concat (map f ys)). R a b"
    using Cons.prems(1) assms(3) by auto
  ultimately show ?case
    by (simp add: sorted_wrt_append)
qed

lemma comprehension_filter:
  "concat (map (\<lambda>x. if Q x then [g x] else []) xs) = map g (filter Q xs)"
  by (induction xs) simp_all

lemma sorted_wrt_row:
  "sorted_wrt (\<lambda>a b. fst a < fst b) [(x, y). x \<leftarrow> [0..w], Q x]"
proof -
  have "sorted_wrt (<) (filter Q [0..w])"
    by (rule sorted_wrt_filter) simp
  then show ?thesis
    by (simp add: comprehension_filter sorted_wrt_map)
qed

lemma sorted_wrt_row_rev:
  "sorted_wrt (\<lambda>a b. fst b < fst a) [(x, y). x \<leftarrow> rev [0..w], Q x]"
proof -
  have "sorted_wrt (\<lambda>a b. b < a) (rev [0..w])"
    by (simp add: sorted_wrt_rev)
  then have "sorted_wrt (\<lambda>a b. b < a) (filter Q (rev [0..w]))"
    by (rule sorted_wrt_filter)
  then show ?thesis
    by (simp add: comprehension_filter sorted_wrt_map)
qed

lemma sorted_wrt_column:
  "sorted_wrt (\<lambda>a b. snd a < snd b) [(x, y). y \<leftarrow> [0..h], Q y]"
proof -
  have "sorted_wrt (<) (filter Q [0..h])"
    by (rule sorted_wrt_filter) simp
  then show ?thesis
    by (simp add: comprehension_filter sorted_wrt_map)
qed

lemma sorted_wrt_column_rev:
  "sorted_wrt (\<lambda>a b. snd b < snd a) [(x, y). y \<leftarrow> rev [0..h], Q y]"
proof -
  have "sorted_wrt (\<lambda>a b. b < a) (rev [0..h])"
    by (simp add: sorted_wrt_rev)
  then have "sorted_wrt (\<lambda>a b. b < a) (filter Q (rev [0..h]))"
    by (rule sorted_wrt_filter)
  then show ?thesis
    by (simp add: comprehension_filter sorted_wrt_map)
qed

lemma sorted_wrt_weaken:
  "sorted_wrt R xs \<Longrightarrow> (\<And>a b. a \<in> set xs \<Longrightarrow> b \<in> set xs \<Longrightarrow> R a b \<Longrightarrow> S a b) \<Longrightarrow> sorted_wrt S xs"
  by (rule sorted_wrt_mono_rel)

lemma zigzag_sorted_horizontal:
  "sorted_wrt (zigzag_before True) (generate_zigzag_path P start True)"
proof -
  let ?f = "\<lambda>y. if y mod 2 = 0
             then [(x, y). x \<leftarrow> [0..planner_width P - 1], is_valid_position P x y]
             else [(x, y). x \<leftarrow> rev [0..planner_width P - 1], is_valid_position P x y]"
  have row: "\<And>y a. a \<in> set (?f y) \<Longrightarrow> snd a = y"
    by (auto split: if_splits)
  have "sorted_wrt (zigzag_before True) (concat (map ?f [0..planner_height P - 1]))"
  proof (rule sorted_wrt_concat_map)
    show "sorted_wrt (<) [0..planner_height P - 1]" by simp
  next
    fix y
    show "sorted_wrt (zigzag_before True) (?f y)"
    proof (cases "y mod 2 = 0")
      case True
      have "sorted_wrt (\<lambda>a b. fst a < fst b) (?f y)"
        using True sorted_wrt_row [where y = y and w = "planner_width P - 1" and Q = "\<lambda>x. is_valid_position P x y"]
        by simp
      then show ?thesis
      proof (rule sorted_wrt_weaken)
        fix a b assume "a \<in> set (?f y)" "b \<in> set (?f y)" "fst a < fst b"
        with row [of a y] row [of b y] True show "zigzag_before True a b"
          by (simp add: zigzag_before_def even_iff_mod_2_eq_zero)
      qed
    next
      case False
      have "sorted_wrt (\<lambda>a b. fst b < fst a) (?f y)"
        using False sorted_wrt_row_rev [where y = y and w = "planner_width P - 1" and Q = "\<lambda>x. is_valid_position P x y"]
        by simp
      then show ?thesis
      proof (rule sorted_wrt_weaken)
        fix a b assume "a \<in> set (?f y)" "b \<in> set (?f y)" "fst b < fst a"
        with row [of a y] row [of b y] False show "zigzag_before True a b"
          by (simp add: zigzag_before_def even_iff_mod_2_eq_zero)
      qed
    qed
  next
    fix y y' :: int and a b
    assume "y < y'" "a \<in> set (?f y)" "b \<in> set (?f y')"
    with row [of a y] row [of b y'] show "zigzag_before True a b"
      by (simp add: zigzag_before_def)
  qed
  then show ?thesis
    by (simp add: generate_zigzag_path_def)
qed

lemma zigzag_sorted_vertical:
  "sorted_wrt (zigzag_before False) (generate_zigzag_path P start False)"
proof -
  let ?f = "\<lambda>x. if x mod 2 = 0
             then [(x, y). y \<leftarrow> [0..planner_height P - 1], is_valid_position P x y]
             else [(x, y). y \<leftarrow> rev [0..planner_height P - 1], is_valid_position P x y]"
  have row: "\<And>y a. a \<in> set (?f y) \<Longrightarrow> fst a = y"
    by (auto split: if_splits)
  have "sorted_wrt (zigzag_before False) (concat (map ?f [0..planner_width P - 1]))"
  proof (rule sorted_wrt_concat_map)
    show "sorted_wrt (<) [0..planner_width P - 1]" by simp
  next
    fix y
    show "sorted_wrt (zigzag_before False) (?f y)"
    proof (cases "y mod 2 = 0")
      case True
      have "sorted_wrt (\<lambda>a b. snd a < snd b) (?f y)"
        using True sorted_wrt_column [where x = y and h = "planner_height P - 1" and Q = "\<lambda>v. is_valid_position P y v"]
        by simp
      then show ?thesis
      proof (rule sorted_wrt_weaken)
        fix a b assume "a \<in> set (?f y)" "b \<in> set (?f y)" "snd a < snd b"
        with row [of a y] row [of b y] True show "zigzag_before False a b"
          by (simp add: zigzag_before_def even_iff_mod_2_eq_zero)
      qed
    next
      case False
      have "sorted_wrt (\<lambda>a b. snd b < snd a) (?f y)"
        using False sorted_wrt_column_rev [where x = y and h = "planner_height P - 1" and Q = "\<lambda>v. is_valid_position P y v"]
        by simp
      then show ?thesis
      proof (rule sorted_wrt_weaken)
        fix a b assume "a \<in> set (?f y)" "b \<in> set (?f y)" "snd b < snd a"
        with row [of a y] row [of b y] False show "zigzag_before False a b"
          by (simp add: zigzag_before_def even_iff_mod_2_eq_zero)
      qed
    qed
  next
    fix y y' :: int and a b
    assume "y < y'" "a \<in> set (?f y)" "b \<in> set (?f y')"
    with row [of a y] row [of b y'] show "zigzag_before False a b"
      by (simp add: zigzag_before_def)
  qed
  then show ?thesis
    by (simp add: generate_zigzag_path_def)
qed


lemma zigzag_sorted:
  "sorted_wrt (zigzag_before horizontal) (generate_zigzag_path P start horizontal)"
  by (cases horizontal) (simp_all add: zigzag_sorted_horizontal zigzag_sorted_vertical)

lemma sorted_wrt_irrefl_distinct:
  "sorted_wrt R xs \<Longrightarrow> (\<And>a. \<not> R a a) \<Longrightarrow> distinct xs"
  by (induction xs) auto

lemma zigzag_before_irrefl: "\<not> zigzag_before horizontal a a"
  by (simp add: zigzag_before_def)

lemma create_empty_room_no_dock: "environment (create_empty_room w h) y x \<noteq> 3"
  by (simp add: create_empty_room_def)

subsection \<open>Spiral\<close>

lemma spiral_body_fields:
  "cur_x (spiral_body P s) = cur_x s + dir_x s"
  "cur_y (spiral_body P s) = cur_y s + dir_y s"
  "steps_taken (spiral_body P s) =
     (if steps_taken s + 1 = steps_in_direction s then 0 else steps_taken s + 1)"
  "direction_changes (spiral_body P s) =
     (if steps_taken s + 1 = steps_in_direction s then direction_changes s + 1
      else direction_changes s)"
  "dir_x (spiral_body P s) =
     (if steps_taken s + 1 = steps_in_direction s then - dir_y s else dir_x s)"
  "dir_y (spiral_body P s) =
     (if steps_taken s + 1 = steps_in_direction s then dir_x s else dir_y s)"
  "steps_in_direction (spiral_body P s) =
     (if steps_taken s + 1 = steps_in_direction s \<and> (direction_changes s + 1) mod 2 = 0
      then steps_in_direction s + 1 else steps_in_direction s)"
  "spiral_path (spiral_body P s) =
     (if is_valid_position P (cur_x s + dir_x s) (cur_y s + dir_y s)
      then spiral_path s @ [(cur_x s + dir_x s, cur_y s + dir_y s)] else spiral_path s)"
  by (simp_all add: spiral_body_def Let_def)

lemma spiral_direction_turn:
  "spiral_direction (Suc k) = (- snd (spiral_direction k), fst (spiral_direction k))"
proof -
  have "k mod 4 = 0 \<or> k mod 4 = 1 \<or> k mod 4 = 2 \<or> k mod 4 = 3" by arith
  moreover have "Suc k mod 4 = (if k mod 4 = 3 then 0 else Suc (k mod 4))" by arith
  ultimately show ?thesis
    by (auto simp add: spiral_direction_def)
qed

lemma in_leg_step_same:
  assumes "in_leg k t p s" and "Suc t < k div 2 + 1"
  shows "in_leg k (Suc t) (fst p + fst (spiral_direction k), snd p + snd (spiral_direction k)) (spiral_body P s)"
proof -
  from assms have ne: "steps_taken s + 1 \<noteq> steps_in_direction s"
    by (simp add: in_leg_def)
  from assms(1) have d: "dir_x s = fst (spiral_direction k)" "dir_y s = snd (spiral_direction k)"
    by (simp_all add: in_leg_def prod_eq_iff)
  from assms ne d show ?thesis
    by (simp add: in_leg_def spiral_body_fields prod_eq_iff)
qed

lemma in_leg_step_turn:
  assumes "in_leg k t p s" and "Suc t = k div 2 + 1"
  shows "in_leg (Suc k) 0 (fst p + fst (spiral_direction k), snd p + snd (spiral_direction k)) (spiral_body P s)"
proof -
  from assms have eq: "steps_taken s + 1 = steps_in_direction s"
    by (simp add: in_leg_def)
  from assms(1) have d: "dir_x s = fst (spiral_direction k)" "dir_y s = snd (spiral_direction k)"
    and xy: "cur_x s = fst p" "cur_y s = snd p"
    by (simp_all add: in_leg_def prod_eq_iff)
  from assms(1) have c: "direction_changes s = int k" and l: "steps_in_direction s = int (k div 2 + 1)"
    by (simp_all add: in_leg_def)
  have len: "(if (int k + 1) mod 2 = 0 then int (k div 2 + 1) + 1 else int (k div 2 + 1)) = int (Suc k div 2 + 1)"
    by presburger
  have "steps_in_direction (spiral_body P s) = int (Suc k div 2 + 1)"
    using eq c l len by (simp only: spiral_body_fields simp_thms if_True)
  with eq d c xy show ?thesis
    by (simp add: in_leg_def spiral_body_fields spiral_direction_turn)
qed

lemma in_leg_cell:
  assumes "in_leg k t p s"
  shows "(cur_x (spiral_body P s), cur_y (spiral_body P s)) =
     (fst p + fst (spiral_direction k), snd p + snd (spiral_direction k))"
  using assms by (simp add: in_leg_def spiral_body_fields prod_eq_iff)

lemma spiral_legs_Suc: "spiral_legs a (Suc c) = replicate (a div 2 + 1) (spiral_direction a) @ spiral_legs (Suc a) c"
  by (simp add: spiral_legs_def upt_rec)

lemma spiral_trace_in_leg:
  "in_leg k t p s \<Longrightarrow> n \<le> c \<Longrightarrow>
   spiral_trace P n s =
     take n (walk p (replicate (k div 2 + 1 - t) (spiral_direction k) @ spiral_legs (Suc k) c))"
proof (induction n arbitrary: k t p s c)
  case 0
  then show ?case by simp
next
  case (Suc n)
  let ?d = "spiral_direction k"
  let ?p' = "(fst p + fst ?d, snd p + snd ?d)"
  from Suc.prems(1) have t: "t < k div 2 + 1" by (simp add: in_leg_def)
  then obtain r where r: "k div 2 + 1 - t = Suc r" by (cases "k div 2 + 1 - t") simp_all
  from Suc.prems(2) obtain c' where c: "c = Suc c'" and nc: "n \<le> c'" by (cases c) simp_all
  have cell: "(cur_x (spiral_body P s), cur_y (spiral_body P s)) = ?p'"
    using Suc.prems(1) by (rule in_leg_cell)
  show ?case
  proof (cases "Suc t < k div 2 + 1")
    case True
    have "in_leg k (Suc t) ?p' (spiral_body P s)"
      using Suc.prems(1) True by (rule in_leg_step_same)
    from Suc.IH [OF this, of c] Suc.prems(2)
    have "spiral_trace P n (spiral_body P s) =
       take n (walk ?p' (replicate (k div 2 + 1 - Suc t) ?d @ spiral_legs (Suc k) c))"
      by simp
    moreover from r have "k div 2 + 1 - Suc t = r" by simp
    ultimately show ?thesis
      using cell r by simp
  next
    case False
    with t have turn: "Suc t = k div 2 + 1" by simp
    have "in_leg (Suc k) 0 ?p' (spiral_body P s)"
      using Suc.prems(1) turn by (rule in_leg_step_turn)
    from Suc.IH [OF this nc]
    have "spiral_trace P n (spiral_body P s) =
       take n (walk ?p' (replicate (Suc k div 2 + 1) (spiral_direction (Suc k)) @ spiral_legs (Suc (Suc k)) c'))"
      by simp
    moreover from turn r have "r = 0" by simp
    ultimately show ?thesis
      using cell r c by (simp add: spiral_legs_Suc)
  qed
qed

lemma spiral_inv_init: "spiral_inv start 0 (spiral_init start)"
  unfolding spiral_inv_def
  by (rule exI [of _ 0]) (simp add: leg_right_def spiral_init_def)

lemma leg_right_step:
  assumes "leg_right start m n s"
  shows "leg_right start m (n + 1) (spiral_body P s) \<or> leg_down start m (n + 1) (spiral_body P s)"
proof (cases "steps_taken s + 1 = steps_in_direction s")
  case True
  have "(4 * m + 1) mod 2 \<noteq> (0::int)" by presburger
  with assms True have "leg_down start m (n + 1) (spiral_body P s)"
    by (simp add: leg_right_def leg_down_def spiral_body_fields)
  then show ?thesis ..
next
  case False
  with assms have "leg_right start m (n + 1) (spiral_body P s)"
    by (simp add: leg_right_def spiral_body_fields)
  then show ?thesis ..
qed

lemma leg_down_step:
  assumes "leg_down start m n s"
  shows "leg_down start m (n + 1) (spiral_body P s) \<or> leg_left start m (n + 1) (spiral_body P s)"
proof (cases "steps_taken s + 1 = steps_in_direction s")
  case True
  have "(4 * m + 1 + 1) mod 2 = (0::int)" by presburger
  with assms True have "leg_left start m (n + 1) (spiral_body P s)"
    by (simp add: leg_down_def leg_left_def spiral_body_fields)
  then show ?thesis ..
next
  case False
  with assms have "leg_down start m (n + 1) (spiral_body P s)"
    by (simp add: leg_down_def spiral_body_fields)
  then show ?thesis ..
qed

lemma leg_left_step:
  assumes "leg_left start m n s"
  shows "leg_left start m (n + 1) (spiral_body P s) \<or> leg_up start m (n + 1) (spiral_body P s)"
proof (cases "steps_taken s + 1 = steps_in_direction s")
  case True
  have "(4 * m + 2 + 1) mod 2 \<noteq> (0::int)" by presburger
  with assms True have "leg_up start m (n + 1) (spiral_body P s)"
    by (simp add: leg_left_def leg_up_def spiral_body_fields)
  then show ?thesis ..
next
  case False
  with assms have "leg_left start m (n + 1) (spiral_body P s)"
    by (simp add: leg_left_def spiral_body_fields)
  then show ?thesis ..
qed

lemma leg_up_step:
  assumes "leg_up start m n s"
  shows "leg_up start m (n + 1) (spiral_body P s) \<or> leg_right start (m + 1) (n + 1) (spiral_body P s)"
proof (cases "steps_taken s + 1 = steps_in_direction s")
  case True
  have "(4 * m + 3 + 1) mod 2 = (0::int)" by presburger
  with assms True have "leg_right start (m + 1) (n + 1) (spiral_body P s)"
    by (simp add: leg_up_def leg_right_def spiral_body_fields algebra_simps)
  then show ?thesis ..
next
  case False
  with assms have "leg_up start m (n + 1) (spiral_body P s)"
    by (simp add: leg_up_def spiral_body_fields)
  then show ?thesis ..
qed

lemma spiral_inv_step:
  assumes "spiral_inv start n s"
  shows "spiral_inv start (n + 1) (spiral_body P s)"
proof -
  from assms obtain m where m: "0 \<le> m"
    and legs: "leg_right start m n s \<or> leg_down start m n s \<or> leg_left start m n s \<or> leg_up start m n s"
    unfolding spiral_inv_def by blast
  from legs show ?thesis
  proof (elim disjE)
    assume "leg_right start m n s"
    from leg_right_step [OF this, of P] m show ?thesis
      unfolding spiral_inv_def by blast
  next
    assume "leg_down start m n s"
    from leg_down_step [OF this, of P] m show ?thesis
      unfolding spiral_inv_def by blast
  next
    assume "leg_left start m n s"
    from leg_left_step [OF this, of P] m show ?thesis
      unfolding spiral_inv_def by blast
  next
    assume "leg_up start m n s"
    from leg_up_step [OF this, of P] m have "leg_up start m (n + 1) (spiral_body P s) \<or>
        (0 \<le> m + 1 \<and> leg_right start (m + 1) (n + 1) (spiral_body P s))"
      by simp
    then show ?thesis
      unfolding spiral_inv_def using m by blast
  qed
qed

lemma spiral_inv_bound:
  assumes inv: "spiral_inv start n s" and n: "1 \<le> n" "n \<le> R * R" and R: "0 \<le> R"
  shows "\<bar>cur_x s - fst start\<bar> \<le> R \<and> \<bar>cur_y s - snd start\<bar> \<le> R"
proof -
  from inv obtain m where m: "0 \<le> m"
    and near: "\<bar>cur_x s - fst start\<bar> \<le> m + 1" "\<bar>cur_y s - snd start\<bar> \<le> m + 1"
    and steps: "4 * m * m + 2 * m \<le> n"
    unfolding spiral_inv_def leg_right_def leg_down_def leg_left_def leg_up_def
    by (elim exE conjE disjE) (rule that, assumption, linarith, linarith, linarith)+
  have "m + 1 \<le> R"
  proof (cases "m = 0")
    case True
    have "R \<noteq> 0" using n by auto
    with R True show ?thesis by simp
  next
    case False
    with m have m1: "1 \<le> m" by simp
    have "(2 * m)\<^sup>2 = 4 * m * m" by (simp add: power2_eq_square)
    also have "\<dots> < 4 * m * m + 2 * m" using m1 by simp
    also have "\<dots> \<le> R * R" using steps n by simp
    finally have "(2 * m)\<^sup>2 < R\<^sup>2" by (simp add: power2_eq_square)
    then have "2 * m < R" using R by (rule power2_less_imp_less)
    with m1 show ?thesis by simp
  qed
  with near show ?thesis by simp
qed

lemma spiral_trace_bound:
  "spiral_inv start i s \<Longrightarrow> i + int n \<le> R * R \<Longrightarrow> 0 \<le> i \<Longrightarrow> 0 \<le> R \<Longrightarrow>
   \<forall>c \<in> set (spiral_trace P n s). \<bar>fst c - fst start\<bar> \<le> R \<and> \<bar>snd c - snd start\<bar> \<le> R"
proof (induction n arbitrary: i s)
  case 0
  then show ?case by simp
next
  case (Suc n)
  have inv': "spiral_inv start (i + 1) (spiral_body P s)"
    using Suc.prems(1) by (rule spiral_inv_step)
  have "\<bar>cur_x (spiral_body P s) - fst start\<bar> \<le> R \<and> \<bar>cur_y (spiral_body P s) - snd start\<bar> \<le> R"
    using inv' Suc.prems(2,3,4) by (intro spiral_inv_bound [where n = "i + 1"]) simp_all
  moreover have "\<forall>c \<in> set (spiral_trace P n (spiral_body P s)).
      \<bar>fst c - fst start\<bar> \<le> R \<and> \<bar>snd c - snd start\<bar> \<le> R"
    using inv' Suc.prems(2,3,4) by (intro Suc.IH [where i = "i + 1"]) simp_all
  ultimately show ?case by simp
qed

lemma spiral_loop_no_break:
  "\<forall>c \<in> set (spiral_trace P n s). \<not> (\<bar>fst c - fst start\<bar> > R \<and> \<bar>snd c - snd start\<bar> > R) \<Longrightarrow>
   spiral_loop P start R n s = spiral_run P n s"
proof (induction n arbitrary: s)
  case 0
  then show ?case by simp
next
  case (Suc n)
  from Suc.prems have "\<not> spiral_break start R (spiral_body P s)"
    by (simp add: spiral_break_def)
  moreover from Suc.prems have "spiral_loop P start R n (spiral_body P s) = spiral_run P n (spiral_body P s)"
    by (intro Suc.IH) simp
  ultimately show ?case by (simp add: Let_def)
qed

lemma spiral_run_path:
  "spiral_path (spiral_run P n s) =
     spiral_path s @ filter (\<lambda>c. is_valid_position P (fst c) (snd c)) (spiral_trace P n s)"
  by (induction n arbitrary: s) (simp_all add: spiral_body_fields)

lemma length_walk: "length (walk p ds) = length ds"
  by (induction ds arbitrary: p) simp_all

lemma walk_append_take:
  "n \<le> length ds \<Longrightarrow> take n (walk p (ds @ es)) = take n (walk p ds)"
proof (induction ds arbitrary: p n)
  case Nil
  then show ?case by simp
next
  case (Cons d ds)
  then show ?case by (cases n) simp_all
qed

lemma spiral_legs_snoc:
  "spiral_legs a (Suc c) = spiral_legs a c @ replicate ((a + c) div 2 + 1) (spiral_direction (a + c))"
  by (simp add: spiral_legs_def)

lemma length_spiral_legs: "c \<le> length (spiral_legs a c)"
proof (induction c)
  case 0
  then show ?case by simp
next
  case (Suc c)
  then show ?case by (simp add: spiral_legs_snoc)
qed

lemma in_leg_init: "in_leg 0 0 start (spiral_init start)"
  by (simp add: in_leg_def spiral_init_def spiral_direction_def)

lemma spiral_trace_init: "spiral_trace P n (spiral_init start) = spiral_cells start n"
proof -
  have "spiral_trace P n (spiral_init start) =
      take n (walk start (replicate (0 div 2 + 1 - 0) (spiral_direction 0) @ spiral_legs (Suc 0) n))"
    using in_leg_init by (rule spiral_trace_in_leg) simp
  also have "replicate (0 div 2 + 1 - 0) (spiral_direction 0) @ spiral_legs (Suc 0) n = spiral_legs 0 (Suc n)"
    by (simp add: spiral_legs_Suc)
  also have "take n (walk start (spiral_legs 0 (Suc n))) = take n (walk start (spiral_legs 0 n))"
    unfolding spiral_legs_snoc by (rule walk_append_take) (rule length_spiral_legs)
  finally show ?thesis by (simp add: spiral_cells_def)
qed

lemma spiral_cells_bound:
  assumes "0 \<le> R"
  shows "\<forall>c \<in> set (spiral_cells start (nat (R * R))).
     \<bar>fst c - fst start\<bar> \<le> R \<and> \<bar>snd c - snd start\<bar> \<le> R"
proof -
  have "\<forall>c \<in> set (spiral_trace room55 (nat (R * R)) (spiral_init start)).
     \<bar>fst c - fst start\<bar> \<le> R \<and> \<bar>snd c - snd start\<bar> \<le> R"
    using spiral_inv_init assms by (intro spiral_trace_bound [where i = 0]) simp_all
  then show ?thesis by (simp add: spiral_trace_init)
qed

lemma generate_spiral_path_Some:
  assumes "0 \<le> R"
  shows "generate_spiral_path P start (Some R) =
     start # filter (\<lambda>c. is_valid_position P (fst c) (snd c)) (spiral_cells start (nat (R * R)))"
proof -
  have "\<forall>c \<in> set (spiral_trace P (nat (R * R)) (spiral_init start)).
     \<not> (\<bar>fst c - fst start\<bar> > R \<and> \<bar>snd c - snd start\<bar> > R)"
    using spiral_cells_bound [OF assms, of start] by (fastforce simp add: spiral_trace_init)
  then have "spiral_loop P start R (nat (R * R)) (spiral_init start) = spiral_run P (nat (R * R)) (spiral_init start)"
    by (rule spiral_loop_no_break)
  moreover have "spiral_path (spiral_init start) = [start]"
    by (simp add: spiral_init_def)
  ultimately show ?thesis
    by (simp add: generate_spiral_path_def spiral_run_path spiral_trace_init)
qed

text \<open>
  For a radius \<open>R \<ge> 0\<close> the test that guards \<open>break\<close> is false at every cell the loop
  passes: the loop always ends because its range is used up.
\<close>

lemma spiral_stop_test_never_true:
  assumes "0 \<le> R"
  shows "\<forall>c \<in> set (spiral_cells start (nat (R * R))).
     \<not> (\<bar>fst c - fst start\<bar> > R \<and> \<bar>snd c - snd start\<bar> > R)"
  using spiral_cells_bound [OF assms, of start] by fastforce

subsection \<open>A* search\<close>

lemma traversable_iff: "traversable P c \<longleftrightarrow> is_valid_position P (fst c) (snd c)"
  by (auto simp add: traversable_def is_valid_position_def)

lemma neighbors_connected:
  assumes "connected P start (x, y)" and "c \<in> set (get_neighbors P x y diagonal)"
  shows "connected P start c"
proof -
  from assms(2) consider
      (cardinal) "traversable P c" "\<bar>x - fst c\<bar> + \<bar>y - snd c\<bar> = 1"
    | (diag) "traversable P c" "traversable P (fst c, y)" "\<bar>x - fst c\<bar> = 1" "\<bar>y - snd c\<bar> = 1"
    by (auto simp add: get_neighbors_def traversable_iff split: if_splits)
  then show ?thesis
  proof cases
    case cardinal
    with assms(1) show ?thesis
      by (intro connected_step [of P start "(x, y)" c]) simp_all
  next
    case diag
    from assms(1) diag have "connected P start (fst c, y)"
      by (intro connected_step [of P start "(x, y)" "(fst c, y)"]) simp_all
    with diag show ?thesis
      by (intro connected_step [of P start "(fst c, y)" c]) simp_all
  qed
qed

lemma relax_inv:
  assumes inv: "astar_inv P start s" and nb: "connected P start nb"
  shows "astar_inv P start (relax goal current s nb)"
proof -
  have push: "astar_inv P start (s\<lparr>node_map := (node_map s)(nb \<mapsto> n),
        open_set := heappush (node_lt ((node_map s)(nb \<mapsto> n))) (open_set s) nb\<rparr>)"
    if "node_position n = nb" for n
  proof -
    have "set (heappush (node_lt ((node_map s)(nb \<mapsto> n))) (open_set s) nb) \<subseteq> insert nb (set (open_set s))"
      by (rule set_heappush)
    with inv nb that show ?thesis
      unfolding astar_inv_def by auto
  qed
  show ?thesis
  proof (cases "node_map s nb")
    case None
    with push [of "\<lparr>node_position = nb,
        g_cost = g_cost (deref (node_map s) current) +
          (if fst nb = fst (node_position (deref (node_map s) current)) \<or>
              snd nb = snd (node_position (deref (node_map s) current)) then 1000 else 1414),
        h_cost = heuristic nb goal, parent = Some current\<rparr>"] inv
    show ?thesis
      by (simp add: relax_def Let_def)
  next
    case (Some m)
    with inv have "node_position m = nb" unfolding astar_inv_def by blast
    with push [of "m\<lparr>g_cost := g_cost (deref (node_map s) current) +
          (if fst nb = fst (node_position (deref (node_map s) current)) \<or>
              snd nb = snd (node_position (deref (node_map s) current)) then 1000 else 1414),
        parent := Some current\<rparr>"] inv Some
    show ?thesis
      by (simp add: relax_def Let_def)
  qed
qed

lemma foldl_relax_inv:
  "astar_inv P start s \<Longrightarrow> \<forall>nb \<in> set nbs. connected P start nb \<Longrightarrow>
   astar_inv P start (foldl (relax goal current) s nbs)"
  by (induction nbs arbitrary: s) (simp_all add: relax_inv)

lemma astar_loop_unreachable:
  "astar_inv P start s \<Longrightarrow> \<not> connected P start goal \<Longrightarrow>
   astar_loop P goal diagonal s = Returns None"
proof (induction P goal diagonal s rule: astar_loop.induct)
  case (1 P goal diagonal s)
  show ?case
  proof (cases "open_set s = []")
    case True
    then show ?thesis by (subst astar_loop.simps) simp
  next
    case False
    from heappop_props [OF False, of "node_lt (node_map s)"]
    obtain current heap where pop: "heappop (node_lt (node_map s)) (open_set s) = Inr (current, heap)"
      and cur: "current \<in> set (open_set s)" and heap: "set heap \<subseteq> set (open_set s)"
      by blast
    let ?cur = "deref (node_map s) current"
    from "1.prems"(1) cur have conn: "connected P start current" and "node_map s current \<noteq> None"
      by (simp_all add: astar_inv_def)
    then obtain n where n: "node_map s current = Some n" by blast
    with "1.prems"(1) have "node_position n = current" unfolding astar_inv_def by blast
    with n have position: "node_position ?cur = current" by (simp add: deref_def)
    with conn "1.prems"(2) have ne: "node_position ?cur \<noteq> goal" by auto
    let ?s1 = "s\<lparr>open_set := heap, closed_set := insert (node_position ?cur) (closed_set s)\<rparr>"
    let ?nbs = "get_neighbors P (fst (node_position ?cur)) (snd (node_position ?cur)) diagonal"
    from "1.prems"(1) heap have "astar_inv P start ?s1"
      unfolding astar_inv_def by auto
    moreover from conn position have "\<forall>nb \<in> set ?nbs. connected P start nb"
      using neighbors_connected [of P start "fst current" "snd current" _ diagonal] by simp
    ultimately have "astar_inv P start (foldl (relax goal current) ?s1 ?nbs)"
      by (rule foldl_relax_inv)
    then have "astar_loop P goal diagonal (foldl (relax goal current) ?s1 ?nbs) = Returns None"
      using False pop ne "1.prems"(2) by (intro "1.IH" [OF False pop refl refl]) simp_all
    with False pop ne show ?thesis
      by (subst astar_loop.simps) (simp add: Let_def)
  qed
qed

lemma heappush_empty: "heappush lt [] item = [item]"
  by (simp add: heappush_def siftdown_def siftdown_loop.simps)

lemma heappop_single: "heappop lt [item] = Inr (item, [])"
  by (simp add: heappop_def)

lemma find_path_invalid:
  "\<not> traversable P start \<or> \<not> traversable P goal \<Longrightarrow> find_path P start goal diagonal = Returns None"
  by (auto simp add: find_path_def traversable_iff)

lemma find_path_same:
  assumes "traversable P start"
  shows "find_path P start start diagonal = Returns (Some [start])"
proof -
  let ?n = "\<lparr>node_position = start, g_cost = 0, h_cost = heuristic start start, parent = None\<rparr>"
  have "reconstruct_path [start \<mapsto> ?n] (Some start) [] = Some [start]"
    by (simp add: reconstruct_path.simps deref_def)
  then have "astar_loop P start diagonal \<lparr>open_set = [start], closed_set = {}, node_map = [start \<mapsto> ?n]\<rparr>
      = Returns (Some [start])"
    by (subst astar_loop.simps) (simp add: heappop_single deref_def)
  with assms show ?thesis
    by (simp add: find_path_def traversable_iff heappush_empty Let_def)
qed

lemma find_path_unreachable:
  assumes "\<not> connected P start goal"
  shows "find_path P start goal diagonal = Returns None"
proof (cases "traversable P start \<and> traversable P goal")
  case False
  then show ?thesis by (simp add: find_path_invalid)
next
  case True
  let ?n = "\<lparr>node_position = start, g_cost = 0, h_cost = heuristic start goal, parent = None\<rparr>"
  have "astar_inv P start \<lparr>open_set = [start], closed_set = {}, node_map = [start \<mapsto> ?n]\<rparr>"
    by (simp add: astar_inv_def connected_start)
  then have "astar_loop P goal diagonal \<lparr>open_set = [start], closed_set = {}, node_map = [start \<mapsto> ?n]\<rparr>
      = Returns None"
    using assms by (rule astar_loop_unreachable)
  with True show ?thesis
    by (simp add: find_path_def traversable_iff heappush_empty Let_def)
qed

lemma row3_isolated: "connected row3 (0, 0) c \<Longrightarrow> c = (0, 0)"
proof (induction rule: connected.induct)
  case connected_start
  show ?case by simp
next
  case (connected_step a b)
  then show ?case
    by (cases b) (auto simp add: traversable_def row3_def split: if_splits)
qed

section \<open>Facts about the particle filter\<close>

lemma get_probability_pos: "0 < get_probability og x y"
proof -
  have "0 < exp v / (1 + exp v)" for v :: real
    by (simp add: add_pos_pos)
  then show ?thesis
    by (simp add: get_probability_def Let_def)
qed

lemma likelihood_returns: "likelihood pf og p measurement acc = Inr l \<Longrightarrow> acc \<le> l"
proof (induction measurement arbitrary: acc)
  case Nil
  then show ?case by simp
next
  case (Cons c measurement)
  obtain obs_x obs_y where c: "c = (obs_x, obs_y)"
    by (cases c)
  from Cons.prems obtain map_x map_y
    where rest: "likelihood pf og p measurement
               (if 0 \<le> map_x \<and> map_x < filter_width pf \<and> 0 \<le> map_y \<and> map_y < filter_height pf
                then acc + get_probability og map_x map_y else acc) = Inr l"
    unfolding c by (auto split: sum.splits)
  from Cons.IH [OF rest] get_probability_pos [of og map_x map_y] show ?case
    by (simp split: if_splits)
qed

lemma sum_list_pos:
  "xs \<noteq> [] \<Longrightarrow> (\<And>x. x \<in> set xs \<Longrightarrow> 0 < (x :: real)) \<Longrightarrow> 0 < sum_list xs"
proof (induction xs)
  case Nil
  then show ?case by simp
next
  case (Cons x xs)
  show ?case
  proof (cases "xs = []")
    case True
    with Cons.prems show ?thesis by simp
  next
    case False
    with Cons have "0 < sum_list xs" by simp
    moreover from Cons.prems have "0 < x" by simp
    ultimately show ?thesis by simp
  qed
qed

lemma reweight_returns:
  "reweight pf og measurement ps = Inr qs \<Longrightarrow>
   length qs = length ps \<and> (\<forall>q \<in> set qs. 0 < weight q)"
proof (induction ps arbitrary: qs)
  case Nil
  then show ?case by simp
next
  case (Cons p ps)
  from Cons.prems obtain l qs' where l: "likelihood pf og p measurement 0 = Inr l"
    and r: "reweight pf og measurement ps = Inr qs'"
    and qs: "qs = p\<lparr>weight := l + 1 / 10 ^ 10\<rparr> # qs'"
    by (auto split: sum.splits)
  from likelihood_returns [OF l] have "0 < l + 1 / 10 ^ 10"
    by simp
  with Cons.IH [OF r] qs show ?case
    by simp
qed

lemma reweight_total_pos:
  assumes "reweight pf og measurement ps = Inr qs" and "ps \<noteq> []"
  shows "0 < sum_list (map weight qs)"
proof (rule sum_list_pos)
  from reweight_returns [OF assms(1)] assms(2) show "map weight qs \<noteq> []"
    by auto
  fix w assume "w \<in> set (map weight qs)"
  with reweight_returns [OF assms(1)] show "0 < w"
    by auto
qed

lemma update_returns:
  assumes "update pf measurement og = Returns pf'"
  shows "num_particles pf' = num_particles pf" and "length (particles pf') = length (particles pf)"
proof -
  have "num_particles pf' = num_particles pf \<and> length (particles pf') = length (particles pf)"
  proof (cases "measurement = []")
    case True
    with assms show ?thesis by (simp add: update_def)
  next
    case False
    with assms obtain qs where q: "reweight pf og measurement (particles pf) = Inr qs"
      by (cases "reweight pf og measurement (particles pf)") (simp_all add: update_def)
    from reweight_returns [OF q] have "length qs = length (particles pf)"
      by simp
    with assms False q show ?thesis
      by (auto simp add: update_def Let_def split: if_splits)
  qed
  then show "num_particles pf' = num_particles pf" and "length (particles pf') = length (particles pf)"
    by simp_all
qed

lemma update_normalises:
  assumes "update pf measurement og = Returns pf'" and "measurement \<noteq> []" and "particles pf \<noteq> []"
  shows "\<exists>qs. reweight pf og measurement (particles pf) = Inr qs \<and>
          0 < sum_list (map weight qs) \<and>
          particles pf' = map (\<lambda>p. p\<lparr>weight := weight p / sum_list (map weight qs)\<rparr>) qs"
proof -
  from assms(1,2) obtain qs where q: "reweight pf og measurement (particles pf) = Inr qs"
    by (cases "reweight pf og measurement (particles pf)") (simp_all add: update_def)
  from reweight_total_pos [OF q assms(3)] have t: "0 < sum_list (map weight qs)" .
  with assms(1,2) q
  have "particles pf' = map (\<lambda>p. p\<lparr>weight := weight p / sum_list (map weight qs)\<rparr>) qs"
    by (auto simp add: update_def Let_def)
  with q t show ?thesis
    by blast
qed

lemma map_coordinate_in_range:
  "\<not> overflows (of_int obs) \<Longrightarrow> \<not> overflows (of_int obs - v) \<Longrightarrow>
   map_coordinate v obs = Inr (py_int (v + (of_int obs - v)))"
  by (simp add: map_coordinate_def)

lemma likelihood_total:
  assumes "\<forall>(obs_x, obs_y) \<in> set measurement.
        \<not> overflows (of_int obs_x) \<and> \<not> overflows (of_int obs_x - particle_x p) \<and>
        \<not> overflows (of_int obs_y) \<and> \<not> overflows (of_int obs_y - particle_y p)"
  shows "\<exists>l. likelihood pf og p measurement acc = Inr l"
  using assms
proof (induction measurement arbitrary: acc)
  case Nil
  then show ?case by simp
next
  case (Cons c measurement)
  obtain obs_x obs_y where c: "c = (obs_x, obs_y)"
    by (cases c)
  from Cons.prems have here: "\<not> overflows (of_int obs_x)" "\<not> overflows (of_int obs_x - particle_x p)"
      "\<not> overflows (of_int obs_y)" "\<not> overflows (of_int obs_y - particle_y p)"
    and rest: "\<forall>(obs_x, obs_y) \<in> set measurement.
        \<not> overflows (of_int obs_x) \<and> \<not> overflows (of_int obs_x - particle_x p) \<and>
        \<not> overflows (of_int obs_y) \<and> \<not> overflows (of_int obs_y - particle_y p)"
    unfolding c by simp_all
  from Cons.IH [OF rest] show ?case
    unfolding c by (simp add: map_coordinate_in_range here)
qed

lemma reweight_total:
  assumes "\<forall>p \<in> set ps. \<forall>(obs_x, obs_y) \<in> set measurement.
        \<not> overflows (of_int obs_x) \<and> \<not> overflows (of_int obs_x - particle_x p) \<and>
        \<not> overflows (of_int obs_y) \<and> \<not> overflows (of_int obs_y - particle_y p)"
  shows "\<exists>qs. reweight pf og measurement ps = Inr qs"
  using assms
proof (induction ps)
  case Nil
  then show ?case by simp
next
  case (Cons p ps)
  from Cons.prems obtain l where l: "likelihood pf og p measurement 0 = Inr l"
    using likelihood_total [of measurement p pf og 0] by auto
  from Cons.prems Cons.IH obtain qs where "reweight pf og measurement ps = Inr qs"
    by auto
  with l show ?case
    by simp
qed

lemma update_total:
  assumes "in_float_range pf measurement"
  shows "\<exists>pf'. update pf measurement og = Returns pf'"
proof -
  from assms obtain qs where "reweight pf og measurement (particles pf) = Inr qs"
    using reweight_total [of "particles pf" measurement pf og] by (auto simp add: in_float_range_def)
  then show ?thesis
    by (simp add: update_def Let_def)
qed

lemma map_snd_enumerate_comp: "map (\<lambda>x. f (snd x)) (enumerate n xs) = map f xs"
  by (induction xs arbitrary: n) simp_all

lemma predict_returns:
  assumes "predict pf dx dy dt noise draw = Returns pf'"
  shows "num_particles pf' = num_particles pf" and "length (particles pf') = length (particles pf)"
    and "map weight (particles pf') = map weight (particles pf)"
  using assms
  by (auto simp add: predict_def comp_def case_prod_unfold map_snd_enumerate_comp split: if_splits)

lemma predict_total:
  "0 \<le> noise \<Longrightarrow> \<exists>pf'. predict pf dx dy dt noise draw = Returns pf'"
  by (simp add: predict_def)

lemma resample_loop_returns:
  "resample_loop pf r draw ms i c new_particles = Returns pf' \<Longrightarrow>
   num_particles pf' = num_particles pf \<and>
   length (particles pf') = length new_particles + length ms"
proof (induction ms arbitrary: i c new_particles)
  case Nil
  then show ?case by auto
next
  case (Cons m ms)
  let ?u = "r + of_nat m * (1 / of_int (num_particles pf))"
  from Cons.prems obtain i' c' where adv: "advance (particles pf) ?u i c = Some (i', c')"
    by (cases "advance (particles pf) ?u i c") (auto simp add: Let_def)
  let ?new = "new_particles @
                [\<lparr>particle_x = particle_x (particles pf ! i') + fst (draw m),
                  particle_y = particle_y (particles pf ! i') + fst (snd (draw m)),
                  theta = theta (particles pf ! i') + snd (snd (draw m)),
                  weight = 1 / of_int (num_particles pf)\<rparr>]"
  from Cons.prems adv have "resample_loop pf r draw ms i' c' ?new = Returns pf'"
    by (simp add: Let_def)
  from Cons.IH [OF this] show ?case by simp
qed

lemma resample_returns:
  assumes "resample pf r draw = Returns pf'"
  shows "num_particles pf' = num_particles pf" and "length (particles pf') = nat (num_particles pf)"
proof -
  from assms obtain p ps where "particles pf = p # ps"
    and "resample_loop pf r draw [0..<nat (num_particles pf)] 0 (weight p) [] = Returns pf'"
    by (cases "particles pf") (auto simp add: resample_def split: if_splits)
  from resample_loop_returns [OF this(2)]
  show "num_particles pf' = num_particles pf" and "length (particles pf') = nat (num_particles pf)"
    by simp_all
qed

lemma init_ok: "0 \<le> n \<Longrightarrow> filter_ok (ParticleFilter_init n w h draw)"
  by (simp add: filter_ok_def ParticleFilter_init_def)

lemma filter_call_ok:
  assumes "filter_ok pf" and "0 \<le> num_particles pf" and "filter_call pf c = Returns pf'"
  shows "filter_ok pf' \<and> num_particles pf' = num_particles pf"
proof (cases c)
  case (Predict dx dy dt noise draw)
  with assms(3) have "predict pf dx dy dt noise draw = Returns pf'"
    by simp
  from predict_returns(1,2) [OF this] assms(1) show ?thesis
    by (simp add: filter_ok_def)
next
  case (Update measurement og)
  with assms(3) have "update pf measurement og = Returns pf'"
    by simp
  from update_returns [OF this] assms(1) show ?thesis
    by (simp add: filter_ok_def)
next
  case (Resample r draw)
  with assms(3) have "resample pf r draw = Returns pf'"
    by simp
  from resample_returns [OF this] assms(2) show ?thesis
    by (simp add: filter_ok_def)
qed

lemma filter_run_ok:
  "filter_ok pf \<Longrightarrow> 0 \<le> num_particles pf \<Longrightarrow> filter_run pf cs = Returns pf' \<Longrightarrow>
   filter_ok pf' \<and> num_particles pf' = num_particles pf"
proof (induction cs arbitrary: pf)
  case Nil
  then show ?case by simp
next
  case (Cons c cs)
  from Cons.prems(3) obtain pf1 where c: "filter_call pf c = Returns pf1"
    and rest: "filter_run pf1 cs = Returns pf'"
    by (cases "filter_call pf c") simp_all
  from filter_call_ok [OF Cons.prems(1,2) c]
  have ok: "filter_ok pf1" and n: "num_particles pf1 = num_particles pf"
    by simp_all
  from Cons.IH [OF ok _ rest] n Cons.prems(2) show ?case
    by simp
qed

text \<open>The run of \<open>filter2\<close> through one call of each operation.\<close>

lemma advance_stop: "\<not> u > c \<Longrightarrow> advance ps u i c = Some (i, c)"
  by (subst advance.simps) simp

lemma filter2_particles:
  "particles filter2 =
     [\<lparr>particle_x = 0, particle_y = 0, theta = 0, weight = 1 / 2\<rparr>,
      \<lparr>particle_x = 0, particle_y = 0, theta = 0, weight = 1 / 2\<rparr>]"
  by (simp add: filter2_def ParticleFilter_init_def draw0_def upt_rec)

lemma filter2_predict:
  "predict filter2 1 0 0 (1 / 10) draw0 =
     Returns (filter2\<lparr>particles :=
       [\<lparr>particle_x = 1, particle_y = 0, theta = 0, weight = 1 / 2\<rparr>,
        \<lparr>particle_x = 1, particle_y = 0, theta = 0, weight = 1 / 2\<rparr>]\<rparr>)"
  by (simp add: predict_def filter2_particles draw0_def clip_def py_mod_def)
     (simp add: filter2_def ParticleFilter_init_def)

lemma filter2_fields:
  "num_particles filter2 = 2" "filter_width filter2 = 10" "filter_height filter2 = 10"
  by (simp_all add: filter2_def ParticleFilter_init_def)

lemma filter2_in_float_range: "in_float_range filter2 [(1, 1)]"
  by (simp add: in_float_range_def filter2_particles overflows_def)

lemma filter2_run:
  "\<exists>pf'. filter_run filter2 [Predict 1 0 0 (1 / 10) draw0, Update [(1, 1)] grid0, Resample 0 draw0]
           = Returns pf'"
proof -
  define P1 where "P1 = filter2\<lparr>particles :=
       [\<lparr>particle_x = 1, particle_y = 0, theta = 0, weight = 1 / 2\<rparr>,
        \<lparr>particle_x = 1, particle_y = 0, theta = 0, weight = 1 / 2\<rparr>]\<rparr>"
  have p: "predict filter2 1 0 0 (1 / 10) draw0 = Returns P1"
    by (simp add: filter2_predict P1_def)
  have u: "update P1 [(1, 1)] grid0 = Returns P1"
    by (simp add: update_def map_coordinate_def overflows_def get_probability_def grid0_def
        py_int_def P1_def filter2_fields)
  have r: "\<exists>pf'. resample P1 0 draw0 = Returns pf'"
    by (simp add: resample_def P1_def filter2_fields upt_rec advance_stop)
  from p u r show ?thesis
    by auto
qed

lemma grid0_clamped: "log_odds_clamped grid0"
  by (simp add: log_odds_clamped_def grid0_def log_odds_min_def log_odds_max_def)

section \<open>The claims\<close>

text \<open>
  C1 (amended). \<open>move\<close>: from every state with a positive battery level, when neither
  \<open>dx\<^sup>2\<close> nor \<open>dy\<^sup>2\<close> nor their sum overflows, the call returns True, the position becomes
  \<open>(x + dx, y + dy)\<close>, the new position is appended to the path history, the total
  distance grows by \<open>sqrt (dx\<^sup>2 + dy\<^sup>2)\<close>, the battery level drops by a tenth of that
  distance, clamped below at 0, each of these computed in the float arithmetic, and the
  grid cell of the new position, its coordinates truncated towards zero (the floor when
  both are non-negative), is added to the cleaned and the visited cells. From every state
  with a battery level of 0 or less the call returns False and changes nothing but the
  state, which becomes error.
\<close>

theorem move_contract:
  "(0 < battery_level r \<and> \<not> overflows (dx\<^sup>2) \<and> \<not> overflows (dy\<^sup>2) \<and>
    \<not> overflows (fl (dx\<^sup>2) + fl (dy\<^sup>2)) \<longrightarrow>
      fst (move fl r dx dy) = Inr True \<and>
      position (snd (move fl r dx dy)) =
        Position (fl (pos_x (position r) + dx)) (fl (pos_y (position r) + dy)) \<and>
      path_history (snd (move fl r dx dy)) = path_history r @ [position (snd (move fl r dx dy))] \<and>
      total_distance (stats (snd (move fl r dx dy))) =
        fl (total_distance (stats r) + fl (sqrt (fl (fl (dx\<^sup>2) + fl (dy\<^sup>2))))) \<and>
      battery_level (snd (move fl r dx dy)) =
        max 0 (fl (battery_level r - fl (fl (sqrt (fl (fl (dx\<^sup>2) + fl (dy\<^sup>2)))) * fl (1 / 10)))) \<and>
      cleaned_cells (snd (move fl r dx dy)) =
        insert (py_int (fl (pos_x (position r) + dx)), py_int (fl (pos_y (position r) + dy)))
          (cleaned_cells r) \<and>
      visited_cells (snd (move fl r dx dy)) =
        insert (py_int (fl (pos_x (position r) + dx)), py_int (fl (pos_y (position r) + dy)))
          (visited_cells r) \<and>
      (0 \<le> fl (pos_x (position r) + dx) \<and> 0 \<le> fl (pos_y (position r) + dy) \<longrightarrow>
         (py_int (fl (pos_x (position r) + dx)), py_int (fl (pos_y (position r) + dy))) =
         (\<lfloor>fl (pos_x (position r) + dx)\<rfloor>, \<lfloor>fl (pos_y (position r) + dy)\<rfloor>))) \<and>
   (battery_level r \<le> 0 \<longrightarrow>
      fst (move fl r dx dy) = Inr False \<and> snd (move fl r dx dy) = r\<lparr>state := ERROR\<rparr>)"
proof (intro conjI impI)
  assume dead: "battery_level r \<le> 0"
  show "fst (move fl r dx dy) = Inr False"
    by (simp add: move_fail [OF dead])
  show "snd (move fl r dx dy) = r\<lparr>state := ERROR\<rparr>"
    by (simp add: move_fail [OF dead])
next
  assume "0 \<le> fl (pos_x (position r) + dx) \<and> 0 \<le> fl (pos_y (position r) + dy)"
  then show "(py_int (fl (pos_x (position r) + dx)), py_int (fl (pos_y (position r) + dy))) =
         (\<lfloor>fl (pos_x (position r) + dx)\<rfloor>, \<lfloor>fl (pos_y (position r) + dy)\<rfloor>)"
    by (simp add: py_int_floor)
qed (simp_all add: move_ok to_grid_def)

theorem move_contract_witness:
  "fst (move unrounded robot0 10 0) = Inr True \<and>
   position (snd (move unrounded robot0 10 0)) = Position 20 10 \<and>
   path_history (snd (move unrounded robot0 10 0)) = [Position 10 10, Position 20 10] \<and>
   total_distance (stats (snd (move unrounded robot0 10 0))) = 10 \<and>
   battery_level (snd (move unrounded robot0 10 0)) = 99 \<and>
   cleaned_cells (snd (move unrounded robot0 10 0)) = {(20, 10)} \<and>
   visited_cells (snd (move unrounded robot0 10 0)) = {(20, 10)} \<and>
   (py_int 20, py_int 10) = (\<lfloor>20 :: real\<rfloor>, \<lfloor>10 :: real\<rfloor>) \<and>
   fst (move unrounded (robot0\<lparr>battery_level := 0\<rparr>) 10 0) = Inr False \<and>
   snd (move unrounded (robot0\<lparr>battery_level := 0\<rparr>) 10 0) = robot0\<lparr>battery_level := 0, state := ERROR\<rparr>"
proof -
  have live: "0 < battery_level robot0 \<and> \<not> overflows ((10 :: real)\<^sup>2) \<and> \<not> overflows ((0 :: real)\<^sup>2) \<and>
      \<not> overflows (unrounded ((10 :: real)\<^sup>2) + unrounded ((0 :: real)\<^sup>2))"
    by (simp add: robot0_def RobotVacuum_init_def overflows_def unrounded_def)
  have dead: "battery_level (robot0\<lparr>battery_level := 0\<rparr>) \<le> 0"
    by simp
  have pos: "position robot0 = Position 10 10" and hist: "path_history robot0 = [Position 10 10]"
    and dist: "total_distance (stats robot0) = 0" and lev: "battery_level robot0 = 100"
    and cl: "cleaned_cells robot0 = {}" and vi: "visited_cells robot0 = {}"
    by (simp_all add: robot0_def RobotVacuum_init_def RobotStats_init_def)
  have i20: "py_int 20 = 20" and i10: "py_int 10 = 10"
    by (simp_all add: py_int_def)
  from move_contract [of robot0 10 0 unrounded] live
  have a: "fst (move unrounded robot0 10 0) = Inr True \<and>
      position (snd (move unrounded robot0 10 0)) = Position 20 10 \<and>
      path_history (snd (move unrounded robot0 10 0)) = [Position 10 10, Position 20 10] \<and>
      total_distance (stats (snd (move unrounded robot0 10 0))) = 10 \<and>
      battery_level (snd (move unrounded robot0 10 0)) = 99 \<and>
      cleaned_cells (snd (move unrounded robot0 10 0)) = {(20, 10)} \<and>
      visited_cells (snd (move unrounded robot0 10 0)) = {(20, 10)} \<and>
      (py_int 20, py_int 10) = (\<lfloor>20 :: real\<rfloor>, \<lfloor>10 :: real\<rfloor>)"
    by (simp add: pos hist dist lev cl vi i20 i10 unrounded_def)
  from move_contract [of "robot0\<lparr>battery_level := 0\<rparr>" 10 0 unrounded] dead
  have b: "fst (move unrounded (robot0\<lparr>battery_level := 0\<rparr>) 10 0) = Inr False \<and>
     snd (move unrounded (robot0\<lparr>battery_level := 0\<rparr>) 10 0) = robot0\<lparr>battery_level := 0, state := ERROR\<rparr>"
    by simp
  from a b show ?thesis by simp
qed

text \<open>
  The claim as first stated takes the floor of the new position, and lets every call
  with a positive battery level return True. A move to \<open>(-1/2, 10)\<close> marks the cell
  \<open>(0, 10)\<close>, not the floor cell \<open>(-1, 10)\<close>. A move by \<open>(2 ^ 700, 0)\<close> raises
  \<open>OverflowError\<close> at \<open>dx ** 2\<close>: it does not return, and it leaves the total distance,
  the battery level and the cell sets as they were.
\<close>

theorem move_claim_fails:
  "0 < battery_level robot0 \<and>
   fst (move unrounded robot0 (- 21 / 2) 0) = Inr True \<and>
   position (snd (move unrounded robot0 (- 21 / 2) 0)) = Position (- 1 / 2) 10 \<and>
   (\<lfloor>- 1 / 2 :: real\<rfloor>, \<lfloor>10 :: real\<rfloor>) \<notin> cleaned_cells (snd (move unrounded robot0 (- 21 / 2) 0)) \<and>
   (\<lfloor>- 1 / 2 :: real\<rfloor>, \<lfloor>10 :: real\<rfloor>) \<notin> visited_cells (snd (move unrounded robot0 (- 21 / 2) 0)) \<and>
   fst (move unrounded robot0 huge 0) = Inl OverflowError \<and>
   total_distance (stats (snd (move unrounded robot0 huge 0))) = total_distance (stats robot0) \<and>
   battery_level (snd (move unrounded robot0 huge 0)) = battery_level robot0 \<and>
   cleaned_cells (snd (move unrounded robot0 huge 0)) = cleaned_cells robot0 \<and>
   visited_cells (snd (move unrounded robot0 huge 0)) = visited_cells robot0"
proof -
  have live: "0 < battery_level robot0"
    by (simp add: robot0_def RobotVacuum_init_def)
  have pos: "position robot0 = Position 10 10"
    and cl: "cleaned_cells robot0 = {}" and vi: "visited_cells robot0 = {}"
    by (simp_all add: robot0_def RobotVacuum_init_def)
  have c: "\<lceil>- (1 / 2) :: real\<rceil> = 0"
    by (rule ceiling_unique) simp_all
  have t: "py_int (- (1 / 2)) = 0" "py_int 10 = 10"
    by (simp_all add: py_int_def c)
  have f: "\<lfloor>- 1 / 2 :: real\<rfloor> = - 1"
    by simp
  have small: "\<not> overflows ((- 21 / 2 :: real)\<^sup>2)" "\<not> overflows ((0 :: real)\<^sup>2)"
    by (simp_all add: overflows_def power2_eq_square)
  have large: "overflows (huge\<^sup>2) \<or> overflows ((0 :: real)\<^sup>2)"
    by (simp add: huge_overflows)
  have a: "fst (move unrounded robot0 (- 21 / 2) 0) = Inr True \<and>
   position (snd (move unrounded robot0 (- 21 / 2) 0)) = Position (- 1 / 2) 10 \<and>
   (\<lfloor>- 1 / 2 :: real\<rfloor>, \<lfloor>10 :: real\<rfloor>) \<notin> cleaned_cells (snd (move unrounded robot0 (- 21 / 2) 0)) \<and>
   (\<lfloor>- 1 / 2 :: real\<rfloor>, \<lfloor>10 :: real\<rfloor>) \<notin> visited_cells (snd (move unrounded robot0 (- 21 / 2) 0))"
    unfolding move_ok [OF live small] by (simp add: pos cl vi to_grid_def t f unrounded_def)
  have b: "fst (move unrounded robot0 huge 0) = Inl OverflowError \<and>
   total_distance (stats (snd (move unrounded robot0 huge 0))) = total_distance (stats robot0) \<and>
   battery_level (snd (move unrounded robot0 huge 0)) = battery_level robot0 \<and>
   cleaned_cells (snd (move unrounded robot0 huge 0)) = cleaned_cells robot0 \<and>
   visited_cells (snd (move unrounded robot0 huge 0)) = visited_cells robot0"
    unfolding move_raises [OF live large] by simp
  from live a b show ?thesis by simp
qed

text \<open>
  C2 (amended). With a non-negative capacity and non-negative charge rates, the battery
  level is in \<open>[0, capacity]\<close> in every state reached from the constructor by calls of
  \<open>move\<close> and \<open>charge\<close>. A successful move leaves the battery level no higher than it
  was. A charge with a non-negative rate leaves the level no lower than it was and at most
  the capacity; at capacity it leaves the level at capacity.
\<close>

theorem battery_invariant:
  "(rounding fl \<and> fl capacity = capacity \<and> 0 \<le> capacity \<and> (\<forall>c \<in> set cs. charge_rate_ok c) \<longrightarrow>
      0 \<le> battery_level (calls fl (RobotVacuum_init p capacity cw sp sr) cs) \<and>
      battery_level (calls fl (RobotVacuum_init p capacity cw sp sr) cs) \<le> capacity) \<and>
   (rounding fl \<and> fl (battery_level r) = battery_level r \<and> fst (move fl r dx dy) = Inr True \<longrightarrow>
      battery_level (snd (move fl r dx dy)) \<le> battery_level r) \<and>
   (0 \<le> rate \<and> battery_level r \<le> battery_capacity r \<longrightarrow>
      battery_level r \<le> battery_level (snd (charge r rate)) \<and>
      battery_level (snd (charge r rate)) \<le> battery_capacity r) \<and>
   (0 \<le> rate \<and> battery_level r = battery_capacity r \<longrightarrow>
      battery_level (snd (charge r rate)) = battery_capacity r)"
proof (intro conjI impI)
  assume h: "rounding fl \<and> fl capacity = capacity \<and> 0 \<le> capacity \<and> (\<forall>c \<in> set cs. charge_rate_ok c)"
  have cap: "battery_capacity (RobotVacuum_init p capacity cw sp sr) = capacity"
    by (simp add: RobotVacuum_init_def)
  from h have "battery_ok (calls fl (RobotVacuum_init p capacity cw sp sr) cs)"
    by (intro calls_battery_ok) (simp_all add: cap init_battery_ok)
  moreover have "battery_capacity (calls fl (RobotVacuum_init p capacity cw sp sr) cs) = capacity"
    by (simp add: calls_capacity cap)
  ultimately show "0 \<le> battery_level (calls fl (RobotVacuum_init p capacity cw sp sr) cs)"
    and "battery_level (calls fl (RobotVacuum_init p capacity cw sp sr) cs) \<le> capacity"
    by (simp_all add: battery_ok_def)
next
  assume h: "rounding fl \<and> fl (battery_level r) = battery_level r \<and> fst (move fl r dx dy) = Inr True"
  then have live: "0 < battery_level r"
    by (simp add: move_flag)
  with h show "battery_level (snd (move fl r dx dy)) \<le> battery_level r"
    by (intro move_level_le) simp_all
next
  assume "0 \<le> rate \<and> battery_level r \<le> battery_capacity r"
  then show "battery_level r \<le> battery_level (snd (charge r rate))"
    and "battery_level (snd (charge r rate)) \<le> battery_capacity r"
    by (simp_all add: charge_level min_def)
next
  assume "0 \<le> rate \<and> battery_level r = battery_capacity r"
  then show "battery_level (snd (charge r rate)) = battery_capacity r"
    by (simp add: charge_level min_def)
qed

theorem battery_invariant_witness:
  "0 \<le> battery_level (calls unrounded robot0 [Move 10 0, Charge 10]) \<and>
   battery_level (calls unrounded robot0 [Move 10 0, Charge 10]) \<le> 100 \<and>
   battery_level (snd (move unrounded robot0 10 0)) \<le> battery_level robot0 \<and>
   battery_level (snd (move unrounded robot0 10 0)) \<le>
     battery_level (snd (charge (snd (move unrounded robot0 10 0)) 10)) \<and>
   battery_level (snd (charge (snd (move unrounded robot0 10 0)) 10)) \<le>
     battery_capacity (snd (move unrounded robot0 10 0)) \<and>
   battery_level (snd (charge robot0 10)) = battery_capacity robot0"
proof -
  have ok: "rounding unrounded \<and> unrounded 100 = 100 \<and> (0::real) \<le> 100 \<and>
      (\<forall>c \<in> set [Move 10 0, Charge 10]. charge_rate_ok c)"
    by (simp add: rounding_unrounded unrounded_def)
  have flag: "rounding unrounded \<and> unrounded (battery_level robot0) = battery_level robot0 \<and>
      fst (move unrounded robot0 10 0) = Inr True"
    by (simp add: rounding_unrounded unrounded_def move_flag overflows_def robot0_def RobotVacuum_init_def)
  have low: "(0::real) \<le> 10 \<and>
      battery_level (snd (move unrounded robot0 10 0)) \<le> battery_capacity (snd (move unrounded robot0 10 0))"
    by (simp add: move_level move_capacity overflows_def unrounded_def robot0_def RobotVacuum_init_def)
  have full: "(0::real) \<le> 10 \<and> battery_level robot0 = battery_capacity robot0"
    by (simp add: robot0_def RobotVacuum_init_def)
  from battery_invariant [of unrounded 100 "[Move 10 0, Charge 10]" "Position 10 10" "3 / 10" "2 / 10" 2
      robot0 10 0 10] ok flag full
  have a: "0 \<le> battery_level (calls unrounded robot0 [Move 10 0, Charge 10]) \<and>
     battery_level (calls unrounded robot0 [Move 10 0, Charge 10]) \<le> 100 \<and>
     battery_level (snd (move unrounded robot0 10 0)) \<le> battery_level robot0 \<and>
     battery_level (snd (charge robot0 10)) = battery_capacity robot0"
    unfolding robot0_def by simp
  from battery_invariant [of unrounded 100 "[Move 10 0, Charge 10]" "Position 10 10" "3 / 10" "2 / 10" 2
      "snd (move unrounded robot0 10 0)" 10 0 10] low
  have b: "battery_level (snd (move unrounded robot0 10 0)) \<le>
     battery_level (snd (charge (snd (move unrounded robot0 10 0)) 10)) \<and>
   battery_level (snd (charge (snd (move unrounded robot0 10 0)) 10)) \<le>
     battery_capacity (snd (move unrounded robot0 10 0))"
    by simp
  from a b show ?thesis by simp
qed

text \<open>
  The claim as first stated fails in four places: a successful move by \<open>(0, 0)\<close> leaves
  the battery level as it was, a charge with rate 0 below capacity leaves the level as it
  was, a charge with a negative rate takes the level below 0, and a robot constructed with
  a negative capacity starts with a negative level.
\<close>

theorem battery_claim_fails:
  "fst (move unrounded robot0 0 0) = Inr True \<and>
   battery_level (snd (move unrounded robot0 0 0)) = battery_level robot0 \<and>
   battery_level (snd (move unrounded robot0 10 0)) < battery_capacity (snd (move unrounded robot0 10 0)) \<and>
   battery_level (snd (charge (snd (move unrounded robot0 10 0)) 0)) =
     battery_level (snd (move unrounded robot0 10 0)) \<and>
   battery_level (calls unrounded robot0 [Charge (- 200)]) < 0 \<and>
   battery_level (RobotVacuum_init (Position 0 0) (- 5) (3 / 10) (2 / 10) 2) < 0"
  by (simp add: move_flag move_level move_capacity charge_level overflows_def unrounded_def
      robot0_def RobotVacuum_init_def)

text \<open>
  C3. \<open>find_path\<close> returns None whenever start or goal is not traversable (a cell that is
  not free or dock, or outside the grid); it returns the one-cell path \<open>[start]\<close> when
  start and goal are the same traversable cell; and it returns None when no sequence of
  steps over traversable cells connects start to goal. In each case the call returns:
  the search loop ends.
\<close>

theorem find_path_none_and_trivial:
  "(\<not> traversable P start \<or> \<not> traversable P goal \<longrightarrow> find_path P start goal diagonal = Returns None) \<and>
   (traversable P start \<longrightarrow> find_path P start start diagonal = Returns (Some [start])) \<and>
   (\<not> connected P start goal \<longrightarrow> find_path P start goal diagonal = Returns None)"
  using find_path_invalid [of P start goal diagonal] find_path_same [of P start diagonal]
    find_path_unreachable [of P start goal diagonal]
  by blast

theorem find_path_none_and_trivial_witness:
  "find_path row3 (1, 0) (0, 0) True = Returns None \<and>
   find_path row3 (0, 0) (0, 0) True = Returns (Some [(0, 0)]) \<and>
   find_path row3 (0, 0) (2, 0) True = Returns None"
proof -
  have wall: "\<not> traversable row3 (1, 0) \<or> \<not> traversable row3 (0, 0)"
    by (simp add: traversable_def row3_def)
  have free: "traversable row3 (0, 0)"
    by (simp add: traversable_def row3_def)
  have apart: "\<not> connected row3 (0, 0) (2, 0)"
    using row3_isolated [of "(2, 0)"] by auto
  from find_path_none_and_trivial [of row3 "(1, 0)" "(0, 0)" True] wall
  have a: "find_path row3 (1, 0) (0, 0) True = Returns None" by blast
  from find_path_none_and_trivial [of row3 "(0, 0)" "(0, 0)" True] free
  have b: "find_path row3 (0, 0) (0, 0) True = Returns (Some [(0, 0)])" by blast
  from find_path_none_and_trivial [of row3 "(0, 0)" "(2, 0)" True] apart
  have c: "find_path row3 (0, 0) (2, 0) True = Returns None" by blast
  from a b c show ?thesis by simp
qed

text \<open>
  C4. \<open>generate_zigzag_path\<close>: for every grid and every start cell, the returned path
  visits, as a set, exactly the traversable cells of the grid (the cells inside the grid
  whose value is free, 0, or dock, 3), each exactly once, in the zigzag order: rows from
  the top, even rows left to right and odd rows right to left, and the transposed order
  in vertical mode. Over an empty room the path visits exactly the set of free cells.
\<close>

theorem zigzag_covers_traversable:
  "set (generate_zigzag_path P start horizontal) =
     {(x, y). 0 \<le> x \<and> x < planner_width P \<and> 0 \<le> y \<and> y < planner_height P \<and>
              (environment P y x = 0 \<or> environment P y x = 3)} \<and>
   distinct (generate_zigzag_path P start horizontal) \<and>
   sorted_wrt (zigzag_before horizontal) (generate_zigzag_path P start horizontal) \<and>
   set (generate_zigzag_path (create_empty_room w h) start horizontal) =
     {(x, y). 0 \<le> x \<and> x < w \<and> 0 \<le> y \<and> y < h \<and>
              environment (create_empty_room w h) y x = 0}"
proof (intro conjI)
  show "set (generate_zigzag_path P start horizontal) =
     {(x, y). 0 \<le> x \<and> x < planner_width P \<and> 0 \<le> y \<and> y < planner_height P \<and>
              (environment P y x = 0 \<or> environment P y x = 3)}"
    by (simp add: set_generate_zigzag_path is_valid_position_iff)
  show "sorted_wrt (zigzag_before horizontal) (generate_zigzag_path P start horizontal)"
    by (rule zigzag_sorted)
  then show "distinct (generate_zigzag_path P start horizontal)"
    by (rule sorted_wrt_irrefl_distinct) (rule zigzag_before_irrefl)
  have "planner_width (create_empty_room w h) = w" "planner_height (create_empty_room w h) = h"
    by (simp_all add: create_empty_room_def)
  then show "set (generate_zigzag_path (create_empty_room w h) start horizontal) =
     {(x, y). 0 \<le> x \<and> x < w \<and> 0 \<le> y \<and> y < h \<and>
              environment (create_empty_room w h) y x = 0}"
    by (simp add: set_generate_zigzag_path is_valid_position_iff create_empty_room_no_dock)
qed

text \<open>
  C5. \<open>generate_spiral_path\<close> steps the pattern right, down, left, up with the leg length
  starting at 1 and growing by one every two direction changes, skips non-traversable
  cells while still advancing along the abstract spiral, and is to end exactly when both
  \<open>|x - start_x|\<close> and \<open>|y - start_y|\<close> exceed \<open>max_radius\<close>. The code makes this test
  after every step, but its loop is \<open>for _ in range(max_radius * max_radius)\<close>, and the
  range is used up first. In the 7 by 7 room from \<open>(1, 1)\<close> with the default radius 7
  (\<open>None\<close>, the entire room) the loop ends after its 49 passes at the abstract position
  \<open>(5, -2)\<close>, where the test is false; the path has 16 cells and misses the free cell
  \<open>(5, 5)\<close>. In the 5 by 5 room from \<open>(2, 2)\<close> with radius 2 the loop ends after its four
  passes at \<open>(1, 3)\<close>, where neither distance exceeds 2.
\<close>

theorem spiral_stops_inside_radius:
  "generate_spiral_path room77 (1, 1) None =
     [(1, 1), (2, 1), (2, 2), (1, 2), (3, 1), (3, 2), (3, 3), (2, 3), (1, 3),
      (4, 1), (4, 2), (4, 3), (4, 4), (3, 4), (2, 4), (1, 4)] \<and>
   cur_x (spiral_loop room77 (1, 1) 7 (nat (7 * 7)) (spiral_init (1, 1))) = 5 \<and>
   cur_y (spiral_loop room77 (1, 1) 7 (nat (7 * 7)) (spiral_init (1, 1))) = - 2 \<and>
   \<not> spiral_break (1, 1) 7 (spiral_loop room77 (1, 1) 7 (nat (7 * 7)) (spiral_init (1, 1))) \<and>
   is_valid_position room77 5 5 \<and>
   (5, 5) \<notin> set (generate_spiral_path room77 (1, 1) None) \<and>
   spiral_loop room55 (2, 2) 2 (nat (2 * 2)) (spiral_init (2, 2)) =
     \<lparr>cur_x = 1, cur_y = 3, dir_x = 0, dir_y = - 1, steps_in_direction = 2, steps_taken = 0,
      direction_changes = 3, spiral_path = [(2, 2), (3, 2), (3, 3), (2, 3), (1, 3)]\<rparr> \<and>
   generate_spiral_path room55 (2, 2) (Some 2) = [(2, 2), (3, 2), (3, 3), (2, 3), (1, 3)] \<and>
   \<not> spiral_break (2, 2) 2 (spiral_loop room55 (2, 2) 2 (nat (2 * 2)) (spiral_init (2, 2)))"
  by code_simp

text \<open>
  C6. \<open>should_return_to_dock\<close> returns True if and only if the battery level is below 20,
  or the dock position is known and the battery level is below
  1.5 * 0.1 * (Euclidean distance from the current position to the dock) + 10.
\<close>

theorem should_return_to_dock_iff:
  "should_return_to_dock r =
     (battery_level r < 20 \<or>
      (\<exists>d. robot_dock r = Some d \<and>
           battery_level r < (3 / 2) * (1 / 10) * distance_to (position r) d + 10))"
  by (cases "robot_dock r") (simp_all add: should_return_to_dock_def Let_def)

text \<open>
  C7 (amended). Each call of \<open>charge\<close> sets the battery level to the old level plus the
  charge rate, clamped at the capacity, sets the state to charging, and returns True
  exactly when the level is at capacity after the call; the \<open>battery_cycles\<close> counter is
  incremented by every call that returns True, also by a call made while the battery is
  already at capacity.
\<close>

theorem charge_contract:
  "battery_level (snd (charge r rate)) = min (battery_capacity r) (battery_level r + rate) \<and>
   fst (charge r rate) = (battery_level (snd (charge r rate)) = battery_capacity (snd (charge r rate))) \<and>
   battery_cycles (stats (snd (charge r rate))) =
     battery_cycles (stats r) + (if fst (charge r rate) then 1 else 0) \<and>
   state (snd (charge r rate)) = CHARGING"
  by (simp add: charge_level charge_capacity charge_flag charge_cycles charge_state min_def)

text \<open>
  The claim as first stated says that a second call at capacity does not count again.
  On the fresh robot the first call leaves the battery at capacity, and the second call
  increments the counter once more.
\<close>

theorem charge_twice_counts_twice:
  "battery_level (snd (charge robot0 10)) = battery_capacity (snd (charge robot0 10)) \<and>
   battery_cycles (stats (snd (charge (snd (charge robot0 10)) 10))) =
     battery_cycles (stats (snd (charge robot0 10))) + 1"
  by (simp add: charge_level charge_capacity charge_cycles robot0_def RobotVacuum_init_def)

text \<open>
  C8 (amended). For a particle filter that holds at least one particle and a grid whose
  log-odds lie within the clamp of \<open>update_cell\<close>, an \<open>update\<close> call that returns, with
  a measurement list of at least one point, has found a positive total weight and divided
  every weight by it; what the sum of the divided weights is depends on the rounding of
  the arithmetic, and no tolerance is stated for it. For a filter constructed with
  \<open>num_particles \<ge> 0\<close>, the number of particles is \<open>num_particles\<close> after every
  \<open>predict\<close>, \<open>update\<close> and \<open>resample\<close> call of a run that returns. A \<open>predict\<close> call
  with a non-negative noise returns, and so does an \<open>update\<close> call whose measurement
  points are within the float range, each with the number of particles unchanged.
\<close>

theorem particle_filter_invariant:
  "(particles pf \<noteq> [] \<and> measurement \<noteq> [] \<and> log_odds_clamped og \<and>
    update pf measurement og = Returns pf2 \<longrightarrow>
      (\<exists>qs. reweight pf og measurement (particles pf) = Inr qs \<and>
            0 < sum_list (map weight qs) \<and>
            particles pf2 = map (\<lambda>p. p\<lparr>weight := weight p / sum_list (map weight qs)\<rparr>) qs)) \<and>
   (0 \<le> n \<and> filter_run (ParticleFilter_init n w h draw) cs = Returns pf' \<longrightarrow>
      int (length (particles pf')) = n) \<and>
   (0 \<le> noise \<longrightarrow>
      (\<exists>pf1. predict pf dx dy dt noise draw1 = Returns pf1 \<and>
             length (particles pf1) = length (particles pf))) \<and>
   (in_float_range pf measurement \<longrightarrow>
      (\<exists>pf3. update pf measurement og = Returns pf3 \<and>
             length (particles pf3) = length (particles pf)))"
proof (intro conjI impI)
  assume "particles pf \<noteq> [] \<and> measurement \<noteq> [] \<and> log_odds_clamped og \<and>
    update pf measurement og = Returns pf2"
  then show "\<exists>qs. reweight pf og measurement (particles pf) = Inr qs \<and>
            0 < sum_list (map weight qs) \<and>
            particles pf2 = map (\<lambda>p. p\<lparr>weight := weight p / sum_list (map weight qs)\<rparr>) qs"
    by (intro update_normalises) simp_all
next
  assume h: "0 \<le> n \<and> filter_run (ParticleFilter_init n w h draw) cs = Returns pf'"
  have n: "num_particles (ParticleFilter_init n w h draw) = n"
    by (simp add: ParticleFilter_init_def)
  from h have "filter_ok pf' \<and> num_particles pf' = n"
    using filter_run_ok [of "ParticleFilter_init n w h draw" cs pf'] by (simp add: init_ok n)
  then show "int (length (particles pf')) = n"
    by (simp add: filter_ok_def)
next
  assume "0 \<le> noise"
  then obtain pf1 where p: "predict pf dx dy dt noise draw1 = Returns pf1"
    using predict_total by blast
  from p predict_returns(2) [OF p]
  show "\<exists>pf1. predict pf dx dy dt noise draw1 = Returns pf1 \<and>
             length (particles pf1) = length (particles pf)"
    by simp
next
  assume "in_float_range pf measurement"
  then obtain pf3 where u: "update pf measurement og = Returns pf3"
    using update_total by blast
  from u update_returns(2) [OF u]
  show "\<exists>pf3. update pf measurement og = Returns pf3 \<and>
             length (particles pf3) = length (particles pf)"
    by simp
qed

theorem particle_filter_invariant_witness:
  "(\<exists>pf2 qs. update filter2 [(1, 1)] grid0 = Returns pf2 \<and>
       reweight filter2 grid0 [(1, 1)] (particles filter2) = Inr qs \<and>
       0 < sum_list (map weight qs) \<and>
       particles pf2 = map (\<lambda>p. p\<lparr>weight := weight p / sum_list (map weight qs)\<rparr>) qs) \<and>
   (\<exists>pf'. filter_run filter2 [Predict 1 0 0 (1 / 10) draw0, Update [(1, 1)] grid0, Resample 0 draw0]
            = Returns pf' \<and>
          int (length (particles pf')) = 2) \<and>
   (\<exists>pf1. predict filter2 1 0 0 (1 / 10) draw0 = Returns pf1 \<and> length (particles pf1) = 2) \<and>
   (\<exists>pf3. update filter2 [(1, 1)] grid0 = Returns pf3 \<and> length (particles pf3) = 2)"
proof -
  obtain pf' where run: "filter_run filter2
      [Predict 1 0 0 (1 / 10) draw0, Update [(1, 1)] grid0, Resample 0 draw0] = Returns pf'"
    using filter2_run by blast
  obtain pf2 where upd: "update filter2 [(1, 1)] grid0 = Returns pf2"
    using update_total [OF filter2_in_float_range] by blast
  have some: "particles filter2 \<noteq> [] \<and> [(1 :: int, 1 :: int)] \<noteq> [] \<and> log_odds_clamped grid0 \<and>
      update filter2 [(1, 1)] grid0 = Returns pf2"
    by (simp add: filter2_particles grid0_clamped upd)
  have two: "(0 :: int) \<le> 2 \<and> filter_run (ParticleFilter_init 2 10 10 draw0)
      [Predict 1 0 0 (1 / 10) draw0, Update [(1, 1)] grid0, Resample 0 draw0] = Returns pf'"
    using run unfolding filter2_def by simp
  have quiet: "(0 :: real) \<le> 1 / 10"
    by simp
  have len: "length (particles filter2) = 2"
    by (simp add: filter2_particles)
  from particle_filter_invariant [of filter2 "[(1, 1)]" grid0 pf2 2 10 10 draw0
      "[Predict 1 0 0 (1 / 10) draw0, Update [(1, 1)] grid0, Resample 0 draw0]" pf' "1 / 10" 1 0 0 draw0]
    some two quiet filter2_in_float_range
  have "(\<exists>qs. reweight filter2 grid0 [(1, 1)] (particles filter2) = Inr qs \<and>
       0 < sum_list (map weight qs) \<and>
       particles pf2 = map (\<lambda>p. p\<lparr>weight := weight p / sum_list (map weight qs)\<rparr>) qs) \<and>
   int (length (particles pf')) = 2 \<and>
   (\<exists>pf1. predict filter2 1 0 0 (1 / 10) draw0 = Returns pf1 \<and> length (particles pf1) = 2) \<and>
   (\<exists>pf3. update filter2 [(1, 1)] grid0 = Returns pf3 \<and> length (particles pf3) = 2)"
    unfolding len by blast
  with run upd show ?thesis
    by blast
qed

text \<open>
  The claim as first stated covers every filter. A filter constructed with
  \<open>num_particles = 0\<close> holds no particle; an update with one measurement point finds the
  total weight 0, skips the normalisation, and leaves the weights with sum 0. A filter
  constructed with \<open>num_particles = -1\<close> holds no particle either, so after an update the
  number of particles, 0, is not \<open>num_particles\<close>.
\<close>

theorem particle_filter_claim_fails:
  "update (ParticleFilter_init 0 10 10 draw0) [(1, 1)] grid0 = Returns (ParticleFilter_init 0 10 10 draw0) \<and>
   sum_list (map weight (particles (ParticleFilter_init 0 10 10 draw0))) = 0 \<and>
   \<not> \<bar>sum_list (map weight (particles (ParticleFilter_init 0 10 10 draw0))) - 1\<bar> \<le> 1 / 10 ^ 6 \<and>
   filter_run (ParticleFilter_init (- 1) 10 10 draw0) [Update [(1, 1)] grid0] =
     Returns (ParticleFilter_init (- 1) 10 10 draw0) \<and>
   int (length (particles (ParticleFilter_init (- 1) 10 10 draw0))) \<noteq>
     num_particles (ParticleFilter_init (- 1) 10 10 draw0)"
  by (simp add: update_def ParticleFilter_init_def)

text \<open>
  C9. Out-of-bounds access is total and defined: for every \<open>(x, y)\<close> outside
  \<open>[0, W) \<times> [0, H)\<close>, \<open>get_cell_type\<close> returns obstacle (and raises nothing), and
  \<open>clean_cell\<close> returns the environment unchanged, the dirt map included.
\<close>

theorem out_of_bounds_defined:
  "\<not> (0 \<le> x \<and> x < width e \<and> 0 \<le> y \<and> y < height e) \<Longrightarrow>
     get_cell_type e x y = Inr OBSTACLE \<and> clean_cell e x y = e"
  by (simp only: get_cell_type_def clean_cell_def if_False simp_thms)

theorem out_of_bounds_defined_witness:
  "\<not> (0 \<le> (3::int) \<and> 3 < width room32 \<and> 0 \<le> (-1::int) \<and> -1 < height room32) \<and>
   get_cell_type room32 3 (-1) = Inr OBSTACLE \<and> clean_cell room32 3 (-1) = room32"
proof -
  have oob: "\<not> (0 \<le> (3::int) \<and> 3 < width room32 \<and> 0 \<le> (-1::int) \<and> -1 < height room32)"
    by (simp add: room32_def)
  from oob out_of_bounds_defined [OF oob] show ?thesis by (simp only: simp_thms)
qed

text \<open>
  C10. \<open>generate_zigzag_path\<close> ignores its start argument: for every grid and every
  \<open>horizontal\<close> flag, any two start cells give the same path. The path need not begin
  at the start cell (in the 4 by 3 empty room, from \<open>(1, 1)\<close> the path begins at
  \<open>(2, 1)\<close>) nor contain it (a start on the wall cell \<open>(0, 0)\<close> is not on the path).
\<close>

theorem zigzag_ignores_start:
  "generate_zigzag_path P s1 horizontal = generate_zigzag_path P s2 horizontal \<and>
   generate_zigzag_path (create_empty_room 4 3) (1, 1) True = [(2, 1), (1, 1)] \<and>
   (0, 0) \<notin> set (generate_zigzag_path (create_empty_room 4 3) (0, 0) True)"
proof -
  have same: "generate_zigzag_path P s1 horizontal = generate_zigzag_path P s2 horizontal" for P s1 s2 horizontal
    by (simp add: generate_zigzag_path_def)
  have run: "generate_zigzag_path (create_empty_room 4 3) (1, 1) True = [(2, 1), (1, 1)]"
    by (simp add: generate_zigzag_path_def create_empty_room_def is_valid_position_def upto.simps)
  from same [of "create_empty_room 4 3" "(0, 0)" True "(1, 1)"] run
  have "(0, 0) \<notin> set (generate_zigzag_path (create_empty_room 4 3) (0, 0) True)"
    by simp
  with same run show ?thesis by simp
qed

end
